theory Spec2Isabelle
  imports Main "HOL-Library.Sublist"
begin

section \<open>The task board: project store, notification and drag protocol\<close>

text \<open>
  A shallow embedding of the state core of the drag-and-drop task board
  (\<^verbatim>\<open>src/state/project-state.ts\<close> and the single-file build of the application).
  The store is one object with two private arrays; listeners are callbacks that run
  in the middle of the store's own methods and may call back into the store, write to
  the array they were handed, or write to the fields of the \<^verbatim>\<open>Project\<close> objects that
  array refers to. Arrays and objects therefore live in an explicit heap, so that the
  difference between copying an array and copying its elements is visible.

  The class \<^verbatim>\<open>ProjectState\<close> occurs twice in the sources, in the namespace file and
  in the single-file build, with the same code; one model stands for both. Of the
  view layer only the drag handlers of \<^verbatim>\<open>ProjectItem\<close> and \<^verbatim>\<open>ProjectList\<close> are
  modelled; \<^verbatim>\<open>getInstance\<close>, input validation and rendering are not.
\<close>

subsection \<open>Project type\<close>

text \<open>\<^verbatim>\<open>enum ProjectStatus { ACTIVE, FINISHED }\<close>\<close>

datatype ProjectStatus = ACTIVE | FINISHED

text \<open>
  \<^verbatim>\<open>class Project { constructor(public id: string, public title: string,
  public description: string, public people: number, public status: ProjectStatus) {} }\<close>
  The field \<^verbatim>\<open>id\<close> is written \<open>id_p\<close> (\<open>id\<close> is HOL's identity function).
  The store only stores and hands out \<^verbatim>\<open>people\<close>; it never computes with it.
\<close>

record Project =
  id_p :: string
  title :: string
  description :: string
  people :: int
  status :: ProjectStatus

subsection \<open>Heap, listeners and the store object\<close>

text \<open>
  A listener is a function value; its identity is a number, so that the same function
  can be registered twice. \<open>oref\<close> is the address of a \<^verbatim>\<open>Project\<close> object, \<open>aref\<close>
  the address of an array of \<^verbatim>\<open>Project\<close> references.
\<close>

type_synonym listener = nat

type_synonym oref = nat

type_synonym aref = nat

text \<open>The public methods of \<^verbatim>\<open>ProjectState\<close>, as calls a client can issue.\<close>

datatype store_call =
    AddListener listener
  | AddProject string string int
  | MoveProject string ProjectStatus

text \<open>
  What the body of a listener \<^verbatim>\<open>(items: Project[]) => void\<close> can do with what it can
  reach: call the store (\<^verbatim>\<open>projectState\<close> is a global), mutate the array \<^verbatim>\<open>items\<close>
  in place (\<open>ArrayUpdate f\<close> replaces its contents by \<open>f\<close> of them: push, pop, splice,
  index assignment), assign to the fields of \<^verbatim>\<open>items[i]\<close> (\<open>FieldUpdate i f\<close>), or throw.
\<close>

datatype action =
    Call store_call
  | ArrayUpdate "oref list \<Rightarrow> oref list"
  | FieldUpdate nat "Project \<Rightarrow> Project"
  | Throw

text \<open>
  \<open>TypeError\<close>: a property of \<^verbatim>\<open>null\<close> or \<^verbatim>\<open>undefined\<close> was accessed;
  \<open>Thrown\<close>: a listener threw; \<open>OutOfFuel\<close>: the call did not return within the
  given number of nested listener invocations (in JavaScript: it never returns, or
  the stack overflows).
\<close>

datatype error = TypeError | Thrown | OutOfFuel

text \<open>
  The environment of the store: the code of every listener (given the values of the
  projects in the array it receives, the actions it performs, in order) and the
  sequence of strings that successive evaluations of
  \<^verbatim>\<open>Math.random().toString()\<close> yield.
\<close>

record env =
  body :: "listener \<Rightarrow> Project list \<Rightarrow> action list"
  random :: "nat \<Rightarrow> string"

text \<open>
  The one \<^verbatim>\<open>ProjectState\<close> instance and the heap around it.
  \<open>listeners\<close> is \<^verbatim>\<open>this.listeners\<close> (a protected array, only ever pushed to);
  \<open>projects\<close> is the address of the private array \<^verbatim>\<open>this.projects\<close>;
  \<open>arrays\<close> and \<open>objects\<close> are the heap (an address is an index; allocation appends);
  \<open>draws\<close> counts the calls of \<^verbatim>\<open>Math.random\<close> so far;
  \<open>trace\<close> records every listener invocation: the listener, the array it was
  passed and the values of the projects in that array at the moment of the call.
\<close>

record world =
  listeners :: "listener list"
  projects :: aref
  arrays :: "oref list list"
  objects :: "Project list"
  draws :: nat
  trace :: "(listener \<times> aref \<times> Project list) list"

text \<open>
  \<^verbatim>\<open>new ProjectState()\<close>, as \<^verbatim>\<open>getInstance\<close> creates it on its first call:
  \<^verbatim>\<open>listeners = []\<close>, \<^verbatim>\<open>projects = []\<close>.
\<close>

definition newProjectState :: world where
  "newProjectState =
     \<lparr>listeners = [], projects = 0, arrays = [[]], objects = [], draws = 0, trace = []\<rparr>"

text \<open>\<^verbatim>\<open>addListener(listenerFn) { this.listeners.push(listenerFn); }\<close>\<close>

definition addListener :: "listener \<Rightarrow> world \<Rightarrow> world" where
  "addListener listenerFn w = w\<lparr>listeners := listeners w @ [listenerFn]\<rparr>"

text \<open>\<^verbatim>\<open>Array.prototype.slice()\<close>: a new array holding the same element references.\<close>

definition slice :: "aref \<Rightarrow> world \<Rightarrow> aref \<times> world" where
  "slice a w = (length (arrays w), w\<lparr>arrays := arrays w @ [arrays w ! a]\<rparr>)"

text \<open>\<^verbatim>\<open>this.projects.find((prj) => prj.id === projectId)\<close>: the first match.\<close>

definition find_project :: "string \<Rightarrow> world \<Rightarrow> oref option" where
  "find_project projectId w =
     List.find (\<lambda>r. id_p (objects w ! r) = projectId) (arrays w ! projects w)"

text \<open>
  The store's methods and the listeners call each other, so they are defined together.
  Fuel is consumed by listener invocations only: \<open>n\<close> bounds how many listener
  invocations may be nested or follow one another in one pass.

  \<^item> \<open>updateListeners_from E n i w\<close> is the loop
    \<^verbatim>\<open>for (const listenerFn of this.listeners) { listenerFn(this.projects.slice()); }\<close>
    standing at index \<open>i\<close>. The array iterator reads the live array: it stops when
    its index reaches the length the array has at that moment.
  \<^item> \<open>perform E n a xs w\<close> runs the actions \<open>xs\<close> of a listener body that was
    passed the array \<open>a\<close>; \<open>exec\<close> runs one of them. Assigning to a field of
    \<^verbatim>\<open>items[i]\<close> when the array has no \<^verbatim>\<open>Project\<close> at \<open>i\<close> is a \<open>TypeError\<close>.
  \<^item> \<open>addProject\<close> and \<open>moveProject\<close> are the methods of the source.
\<close>

function (sequential)
    updateListeners_from :: "env \<Rightarrow> nat \<Rightarrow> nat \<Rightarrow> world \<Rightarrow> error + world"
and perform :: "env \<Rightarrow> nat \<Rightarrow> aref \<Rightarrow> action list \<Rightarrow> world \<Rightarrow> error + world"
and exec :: "env \<Rightarrow> nat \<Rightarrow> aref \<Rightarrow> action \<Rightarrow> world \<Rightarrow> error + world"
and addProject :: "env \<Rightarrow> nat \<Rightarrow> string \<Rightarrow> string \<Rightarrow> int \<Rightarrow> world \<Rightarrow> error + world"
and moveProject :: "env \<Rightarrow> nat \<Rightarrow> string \<Rightarrow> ProjectStatus \<Rightarrow> world \<Rightarrow> error + world"
where
  "updateListeners_from E 0 i w =
     (if i < length (listeners w) then Inl OutOfFuel else Inr w)"
| "updateListeners_from E (Suc n) i w =
     (if i < length (listeners w) then
        (let listenerFn = listeners w ! i;
             (a, w1) = slice (projects w) w;
             items = map (\<lambda>r. objects w1 ! r) (arrays w1 ! a);
             w2 = w1\<lparr>trace := trace w1 @ [(listenerFn, a, items)]\<rparr>
         in case perform E n a (body E listenerFn items) w2 of
              Inl e \<Rightarrow> Inl e
            | Inr w3 \<Rightarrow> updateListeners_from E n (i + 1) w3)
      else Inr w)"
| "perform E n a [] w = Inr w"
| "perform E n a (x # xs) w =
     (case exec E n a x w of
        Inl e \<Rightarrow> Inl e
      | Inr w' \<Rightarrow> perform E n a xs w')"
| "exec E n a (Call (AddListener l)) w = Inr (addListener l w)"
| "exec E n a (Call (AddProject t d p)) w = addProject E n t d p w"
| "exec E n a (Call (MoveProject i s)) w = moveProject E n i s w"
| "exec E n a (ArrayUpdate f) w =
     Inr (w\<lparr>arrays := (arrays w)[a := f (arrays w ! a)]\<rparr>)"
| "exec E n a (FieldUpdate i f) w =
     (if i < length (arrays w ! a) \<and> arrays w ! a ! i < length (objects w)
      then Inr (w\<lparr>objects :=
                  (objects w)[arrays w ! a ! i := f (objects w ! (arrays w ! a ! i))]\<rparr>)
      else Inl TypeError)"
| "exec E n a Throw w = Inl Thrown"
| "addProject E n title' description' people' w =
     (let newProject = \<lparr>id_p = random E (draws w), title = title',
                         description = description', people = people', status = ACTIVE\<rparr>;
          r = length (objects w);
          w1 = w\<lparr>objects := objects w @ [newProject], draws := draws w + 1\<rparr>;
          w2 = w1\<lparr>arrays := (arrays w1)[projects w1 := arrays w1 ! projects w1 @ [r]]\<rparr>
      in updateListeners_from E n 0 w2)"
| "moveProject E n projectId newStatus w =
     (case find_project projectId w of
        None \<Rightarrow> Inr w
      | Some r \<Rightarrow>
          if status (objects w ! r) \<noteq> newStatus
          then updateListeners_from E n 0
                 (w\<lparr>objects := (objects w)[r := (objects w ! r)\<lparr>status := newStatus\<rparr>]\<rparr>)
          else Inr w)"
  by pat_completeness auto

termination
  by (relation "inv_image (less_than <*lex*> less_than <*lex*> less_than)
        (\<lambda>x. case x of
           Inl (Inl (E, n, i, w)) \<Rightarrow> (n, 0::nat, 0::nat)
         | Inl (Inr (E, n, a, xs, w)) \<Rightarrow> (n, 3, length xs)
         | Inr (Inl (E, n, a, x, w)) \<Rightarrow> (n, 2, 0)
         | Inr (Inr (Inl (E, n, t, d, p, w))) \<Rightarrow> (n, 1, 0)
         | Inr (Inr (Inr (E, n, i, s, w))) \<Rightarrow> (n, 1, 0))") auto

text \<open>\<^verbatim>\<open>private updateListeners()\<close>: the loop from its first index.\<close>

definition updateListeners :: "env \<Rightarrow> nat \<Rightarrow> world \<Rightarrow> error + world" where
  "updateListeners E n w = updateListeners_from E n 0 w"

subsection \<open>Observations on a store\<close>

text \<open>The task sequence of the store, as values, in insertion order.\<close>

definition tasks :: "world \<Rightarrow> Project list" where
  "tasks w = map (\<lambda>r. objects w ! r) (arrays w ! projects w)"

text \<open>The listeners invoked, and the snapshots delivered, between \<open>w\<close> and a later \<open>w'\<close>.\<close>

definition invoked :: "world \<Rightarrow> world \<Rightarrow> listener list" where
  "invoked w w' = map fst (drop (length (trace w)) (trace w'))"

definition delivered :: "world \<Rightarrow> world \<Rightarrow> (aref \<times> Project list) list" where
  "delivered w w' = map snd (drop (length (trace w)) (trace w'))"

text \<open>
  Heap invariant of the store: its array exists and every element of it is the
  address of an allocated \<^verbatim>\<open>Project\<close>.
\<close>

definition wf :: "world \<Rightarrow> bool" where
  "wf w \<longleftrightarrow> projects w < length (arrays w) \<and>
            list_all (\<lambda>r. r < length (objects w)) (arrays w ! projects w)"

text \<open>
  A passive listener never calls the store, never throws and never writes to a
  \<^verbatim>\<open>Project\<close>; it may mutate the array it was handed. The listeners the application
  registers (\<^verbatim>\<open>ProjectList.configure\<close>) are passive: they filter the array into a new
  one and render.
\<close>

fun is_ArrayUpdate :: "action \<Rightarrow> bool" where
  "is_ArrayUpdate (ArrayUpdate f) = True"
| "is_ArrayUpdate _ = False"

definition passive_listener :: "env \<Rightarrow> listener \<Rightarrow> bool" where
  "passive_listener E l \<longleftrightarrow> (\<forall>items. list_all is_ArrayUpdate (body E l items))"

text \<open>What the array updates of a body make of the contents of the array it received.\<close>

fun own_updates :: "action list \<Rightarrow> oref list \<Rightarrow> oref list" where
  "own_updates [] xs = xs"
| "own_updates (ArrayUpdate f # as) xs = own_updates as (f xs)"
| "own_updates (_ # as) xs = own_updates as xs"

text \<open>One invocation of a passive listener, in closed form.\<close>

definition deliver :: "env \<Rightarrow> world \<Rightarrow> listener \<Rightarrow> world" where
  "deliver E w l =
     w\<lparr>arrays := arrays w @ [own_updates (body E l (tasks w)) (arrays w ! projects w)],
       trace := trace w @ [(l, length (arrays w), tasks w)]\<rparr>"

text \<open>The store after a pass over passive listeners, in closed form.\<close>

definition notified :: "env \<Rightarrow> world \<Rightarrow> world" where
  "notified E w =
     w\<lparr>arrays := arrays w @
          map (\<lambda>l. own_updates (body E l (tasks w)) (arrays w ! projects w)) (listeners w),
       trace := trace w @
          map (\<lambda>(a, l). (l, a, tasks w)) (enumerate (length (arrays w)) (listeners w))\<rparr>"

text \<open>
  The store between the two statements of \<^verbatim>\<open>addProject\<close>: after
  \<^verbatim>\<open>this.projects.push(newProject)\<close>, before \<^verbatim>\<open>this.updateListeners()\<close>.
\<close>

definition pushed :: "env \<Rightarrow> string \<Rightarrow> string \<Rightarrow> int \<Rightarrow> world \<Rightarrow> world" where
  "pushed E t d p w =
     w\<lparr>objects := objects w @
          [\<lparr>id_p = random E (draws w), title = t, description = d, people = p, status = ACTIVE\<rparr>],
       draws := draws w + 1,
       arrays := (arrays w)[projects w := arrays w ! projects w @ [length (objects w)]]\<rparr>"

text \<open>
  The store inside \<^verbatim>\<open>moveProject\<close> after \<^verbatim>\<open>project.status = newStatus\<close>, before
  \<^verbatim>\<open>this.updateListeners()\<close>.
\<close>

definition restatus :: "oref \<Rightarrow> ProjectStatus \<Rightarrow> world \<Rightarrow> world" where
  "restatus r s w = w\<lparr>objects := (objects w)[r := (objects w ! r)\<lparr>status := s\<rparr>]\<rparr>"

text \<open>
  A sequence of \<^verbatim>\<open>addProject\<close> calls, one after the other, each given as (title,
  description, people); an error ends the sequence.
\<close>

fun addProjects :: "env \<Rightarrow> nat \<Rightarrow> (string \<times> string \<times> int) list \<Rightarrow> world \<Rightarrow> error + world" where
  "addProjects E n [] w = Inr w"
| "addProjects E n ((t, d, p) # rs) w =
     (case addProject E n t d p w of
        Inl e \<Rightarrow> Inl e
      | Inr w' \<Rightarrow> addProjects E n rs w')"

text \<open>
  A registering listener may call \<^verbatim>\<open>projectState.addListener\<close> and mutate the array
  it was handed, and nothing else; the listeners it registers are passive.
  \<open>registrations\<close> lists the listeners a body registers, in order.
\<close>

fun is_registration :: "action \<Rightarrow> bool" where
  "is_registration (Call (AddListener l)) = True"
| "is_registration (ArrayUpdate f) = True"
| "is_registration _ = False"

fun registrations :: "action list \<Rightarrow> listener list" where
  "registrations [] = []"
| "registrations (Call (AddListener l) # as) = l # registrations as"
| "registrations (_ # as) = registrations as"

definition registering :: "env \<Rightarrow> listener \<Rightarrow> bool" where
  "registering E l \<longleftrightarrow>
     (\<forall>items. list_all is_registration (body E l items) \<and>
              list_all (passive_listener E) (registrations (body E l items)))"

text \<open>
  \<open>extends w w'\<close>: \<open>w'\<close> is a well-formed store with the same store array as
  \<open>w\<close> and a heap of arrays that has only grown.
\<close>

definition extends :: "world \<Rightarrow> world \<Rightarrow> bool" where
  "extends w w' \<longleftrightarrow>
     wf w' \<and> projects w' = projects w \<and> length (arrays w) \<le> length (arrays w')"

text \<open>
  \<open>grows w w'\<close>: what every call of the store that returns preserves, whatever the
  listeners do. The store keeps its array, whose contents at \<open>w\<close> are a prefix of its
  contents at \<open>w'\<close> (nothing is removed or moved); the listener sequence and the
  trace of invocations only get longer; no object is deallocated and no draw of
  \<^verbatim>\<open>Math.random\<close> is taken back.
\<close>

definition grows :: "world \<Rightarrow> world \<Rightarrow> bool" where
  "grows w w' \<longleftrightarrow>
     extends w w' \<and>
     prefix (listeners w) (listeners w') \<and>
     prefix (trace w) (trace w') \<and>
     prefix (arrays w ! projects w) (arrays w' ! projects w') \<and>
     length (objects w) \<le> length (objects w') \<and>
     draws w \<le> draws w'"

text \<open>
  A listener starts no pass of its own when it never calls \<^verbatim>\<open>addProject\<close> or
  \<^verbatim>\<open>moveProject\<close>; it may register listeners, write to what it was handed, or throw.
\<close>

fun no_pass_call :: "action \<Rightarrow> bool" where
  "no_pass_call (Call (AddProject t d p)) = False"
| "no_pass_call (Call (MoveProject i s)) = False"
| "no_pass_call _ = True"

definition starts_no_pass :: "env \<Rightarrow> listener \<Rightarrow> bool" where
  "starts_no_pass E l \<longleftrightarrow> (\<forall>items. list_all no_pass_call (body E l items))"

section \<open>Drag and drop\<close>

subsection \<open>The browser's side: events and the drag data store\<close>

text \<open>
  The part of the platform's \<^verbatim>\<open>DataTransfer\<close> the handlers use. The drag data store
  is a list of (format, data) items; \<^verbatim>\<open>types\<close> lists the formats in the order in
  which they were added; \<^verbatim>\<open>setData(format, data)\<close> removes an item of that format
  and adds the new one at the end; \<^verbatim>\<open>getData(format)\<close> is the empty string when
  there is no such item.
\<close>

record DataTransfer =
  data_items :: "(string \<times> string) list"
  effectAllowed :: string

definition types :: "DataTransfer \<Rightarrow> string list" where
  "types dt = map fst (data_items dt)"

definition setData :: "string \<Rightarrow> string \<Rightarrow> DataTransfer \<Rightarrow> DataTransfer" where
  "setData format d dt =
     dt\<lparr>data_items := filter (\<lambda>x. fst x \<noteq> format) (data_items dt) @ [(format, d)]\<rparr>"

definition getData :: "string \<Rightarrow> DataTransfer \<Rightarrow> string" where
  "getData format dt = (case map_of (data_items dt) format of None \<Rightarrow> [] | Some d \<Rightarrow> d)"

text \<open>
  A \<^verbatim>\<open>DragEvent\<close>: \<^verbatim>\<open>dataTransfer\<close> has type \<^verbatim>\<open>DataTransfer | null\<close>;
  \<^verbatim>\<open>preventDefault()\<close> sets \<^verbatim>\<open>defaultPrevented\<close>.
\<close>

record DragEvent =
  dataTransfer :: "DataTransfer option"
  defaultPrevented :: bool

definition preventDefault :: "DragEvent \<Rightarrow> DragEvent" where
  "preventDefault event = event\<lparr>defaultPrevented := True\<rparr>"

text \<open>\<^verbatim>\<open>classList.add(c)\<close> and \<^verbatim>\<open>classList.remove(c)\<close> on the class tokens of an element.\<close>

definition classList_add :: "string \<Rightarrow> string list \<Rightarrow> string list" where
  "classList_add c cs = (if c \<in> set cs then cs else cs @ [c])"

definition classList_remove :: "string \<Rightarrow> string list \<Rightarrow> string list" where
  "classList_remove c cs = filter (\<lambda>x. x \<noteq> c) cs"

subsection \<open>The components and their handlers\<close>

text \<open>
  \<^verbatim>\<open>class ProjectItem\<close>: of its state the drag handlers read \<^verbatim>\<open>this.project\<close> only.
\<close>

record ProjectItem =
  project :: Project

text \<open>
  \<^verbatim>\<open>class ProjectList\<close> with \<^verbatim>\<open>private type: "active" | "finished"\<close>;
  \<open>classList\<close> is the class list of \<^verbatim>\<open>this.element.querySelector("ul")!\<close>, the list
  element of the template.
\<close>

datatype list_type = active | finished

record ProjectList =
  type :: list_type
  classList :: "string list"

text \<open>
  Every handler returns the component, the event and the calls it issued on the global
  \<^verbatim>\<open>projectState\<close>, in order. A handler that dereferences \<^verbatim>\<open>event.dataTransfer!\<close>
  throws a \<open>TypeError\<close> when it is \<^verbatim>\<open>null\<close>.

  \<^verbatim>\<open>dragStartHandler(event) { event.dataTransfer!.setData("text/plain", this.project.id);
  event.dataTransfer!.effectAllowed = "move"; }\<close>
\<close>

definition dragStartHandler ::
  "ProjectItem \<Rightarrow> DragEvent \<Rightarrow> error + (ProjectItem \<times> DragEvent \<times> store_call list)" where
  "dragStartHandler this event =
     (case dataTransfer event of
        None \<Rightarrow> Inl TypeError
      | Some dt \<Rightarrow>
          Inr (this,
               event\<lparr>dataTransfer :=
                 Some ((setData ''text/plain'' (id_p (project this)) dt)\<lparr>effectAllowed := ''move''\<rparr>)\<rparr>,
               []))"

text \<open>\<^verbatim>\<open>dragEndHandler(_) { console.log("DragEnd"); }\<close>\<close>

definition dragEndHandler ::
  "ProjectItem \<Rightarrow> DragEvent \<Rightarrow> ProjectItem \<times> DragEvent \<times> store_call list" where
  "dragEndHandler this event = (this, event, [])"

text \<open>
  \<^verbatim>\<open>dragOverHandler(event) {
    if (event.dataTransfer && event.dataTransfer.types[0] === "text/plain") {
      event.preventDefault();
      const listEl = this.element.querySelector("ul")!;
      listEl.classList.add("droppable"); } }\<close>
  (\<^verbatim>\<open>types[0]\<close> of an empty list is \<^verbatim>\<open>undefined\<close>, which is not the marker.)
\<close>

definition dragOverHandler ::
  "ProjectList \<Rightarrow> DragEvent \<Rightarrow> ProjectList \<times> DragEvent \<times> store_call list" where
  "dragOverHandler this event =
     (case dataTransfer event of
        None \<Rightarrow> (this, event, [])
      | Some dt \<Rightarrow>
          if (case types dt of [] \<Rightarrow> False | t # ts \<Rightarrow> t = ''text/plain'')
          then (this\<lparr>classList := classList_add ''droppable'' (classList this)\<rparr>,
                preventDefault event, [])
          else (this, event, []))"

text \<open>
  \<^verbatim>\<open>dragLeaveHandler(_) { const listEl = this.element.querySelector("ul")!;
  listEl.classList.remove("droppable"); }\<close>
\<close>

definition dragLeaveHandler ::
  "ProjectList \<Rightarrow> DragEvent \<Rightarrow> ProjectList \<times> DragEvent \<times> store_call list" where
  "dragLeaveHandler this event =
     (this\<lparr>classList := classList_remove ''droppable'' (classList this)\<rparr>, event, [])"

text \<open>
  \<^verbatim>\<open>dropHandler(event) {
    const prjId = event.dataTransfer!.getData("text/plain");
    projectState.moveProject(prjId,
      this.type === "active" ? ProjectStatus.ACTIVE : ProjectStatus.FINISHED); }\<close>
\<close>

definition dropHandler ::
  "ProjectList \<Rightarrow> DragEvent \<Rightarrow> error + (ProjectList \<times> DragEvent \<times> store_call list)" where
  "dropHandler this event =
     (case dataTransfer event of
        None \<Rightarrow> Inl TypeError
      | Some dt \<Rightarrow>
          (let prjId = getData ''text/plain'' dt
           in Inr (this, event,
                   [MoveProject prjId (if type this = active then ACTIVE else FINISHED)])))"

subsection \<open>One gesture, as the browser dispatches it\<close>

text \<open>
  The browser's part of the protocol (the HTML drag-and-drop processing model, not
  code of the repository). Every event of a gesture is a new event object on the
  gesture's one drag data store. While the pointer is over a target the browser fires
  \<^verbatim>\<open>dragover\<close> at it repeatedly; when the pointer is released it fires \<^verbatim>\<open>drop\<close> at
  the target only if the target cancelled the last \<^verbatim>\<open>dragover\<close>, and \<^verbatim>\<open>dragleave\<close>
  otherwise (the default: the drop is rejected).

  \<open>dragovers k dt target\<close>: \<open>k\<close> \<^verbatim>\<open>dragover\<close> events; the result says whether the
  last one was cancelled. \<open>release_over k dt target\<close>: the pointer is released over the
  target after \<open>k\<close> of them. \<open>gesture item target k\<close>: a drag that starts on a
  \<^verbatim>\<open>ProjectItem\<close> (an \<^verbatim>\<open>li\<close> element: the data store starts empty) and is
  released over the target; \<^verbatim>\<open>dragend\<close> is fired at the source last.
\<close>

definition fresh_event :: "DataTransfer option \<Rightarrow> DragEvent" where
  "fresh_event dt = \<lparr>dataTransfer = dt, defaultPrevented = False\<rparr>"

fun dragovers ::
  "nat \<Rightarrow> DataTransfer option \<Rightarrow> ProjectList \<Rightarrow> ProjectList \<times> bool \<times> store_call list" where
  "dragovers 0 dt target = (target, False, [])"
| "dragovers (Suc k) dt target =
     (let (target1, accepted1, calls1) = dragovers k dt target;
          (target2, event2, calls2) = dragOverHandler target1 (fresh_event dt)
      in (target2, defaultPrevented event2, calls1 @ calls2))"

definition release_over ::
  "nat \<Rightarrow> DataTransfer option \<Rightarrow> ProjectList \<Rightarrow> error + (ProjectList \<times> store_call list)" where
  "release_over k dt target =
     (let (target1, accepted, calls1) = dragovers k dt target
      in if accepted
         then (case dropHandler target1 (fresh_event dt) of
                 Inl e \<Rightarrow> Inl e
               | Inr (target2, event2, calls2) \<Rightarrow> Inr (target2, calls1 @ calls2))
         else (let (target2, event2, calls2) = dragLeaveHandler target1 (fresh_event dt)
               in Inr (target2, calls1 @ calls2)))"

definition gesture ::
  "ProjectItem \<Rightarrow> ProjectList \<Rightarrow> nat \<Rightarrow> error + (ProjectList \<times> store_call list)" where
  "gesture item target k =
     (case dragStartHandler item
             (fresh_event (Some \<lparr>data_items = [], effectAllowed = ''uninitialized''\<rparr>)) of
        Inl e \<Rightarrow> Inl e
      | Inr (item1, event1, calls1) \<Rightarrow>
          (case release_over k (dataTransfer event1) target of
             Inl e \<Rightarrow> Inl e
           | Inr (target2, calls2) \<Rightarrow>
               (let (item3, event3, calls3) =
                      dragEndHandler item1 (fresh_event (dataTransfer event1))
                in Inr (target2, calls1 @ calls2 @ calls3))))"

subsection \<open>The words of the protocol's description\<close>

text \<open>
  The gesture's declared payload label is the first format of its data store; it
  matches when it is the plain-text marker.
\<close>

definition marker_first :: "DataTransfer option \<Rightarrow> bool" where
  "marker_first dt \<longleftrightarrow>
     (case dt of None \<Rightarrow> False | Some d \<Rightarrow> take 1 (types d) = [''text/plain''])"

text \<open>
  The status a target stands for: the Active list is fixed to Active, the Finished
  list to Finished.
\<close>

definition fixed_status :: "ProjectList \<Rightarrow> ProjectStatus" where
  "fixed_status target = (case type target of active \<Rightarrow> ACTIVE | finished \<Rightarrow> FINISHED)"

section \<open>Concrete stores, listeners and gestures\<close>

text \<open>
  A dragged task \<^verbatim>\<open>"abc"\<close>, the Finished list, the data store a drag of that task
  carries, and the data store of a drag of foreign HTML.
\<close>

definition abc_item :: ProjectItem where
  "abc_item = \<lparr>project = \<lparr>id_p = ''abc'', title = ''Build API'',
                description = ''Design REST layer'', people = 3, status = ACTIVE\<rparr>\<rparr>"

definition finished_list :: ProjectList where
  "finished_list = \<lparr>type = finished, classList = []\<rparr>"

definition abc_payload :: DataTransfer where
  "abc_payload = \<lparr>data_items = [(''text/plain'', ''abc'')], effectAllowed = ''move''\<rparr>"

definition html_payload :: DataTransfer where
  "html_payload = \<lparr>data_items = [(''text/html'', ''<b>abc</b>'')], effectAllowed = ''copy''\<rparr>"

text \<open>
  A board in use: two tasks, and three registrations (the function 0 is registered
  twice).
\<close>

definition board :: world where
  "board =
     \<lparr>listeners = [0, 1, 0], projects = 0, arrays = [[0, 1]],
      objects = [\<lparr>id_p = ''0.7'', title = ''Build API'', description = ''Design REST layer'',
                   people = 3, status = ACTIVE\<rparr>,
                 \<lparr>id_p = ''0.77'', title = ''Write tests'', description = ''Cover the store'',
                   people = 2, status = FINISHED\<rparr>],
      draws = 2, trace = []\<rparr>"

text \<open>
  Listener code other than the application's. In \<open>registering_env\<close> the listener 0
  runs \<^verbatim>\<open>projectState.addListener(l1)\<close>, where \<^verbatim>\<open>l1\<close> (listener 1) does nothing.
  In \<open>field_writing_env\<close> every listener runs \<^verbatim>\<open>items[0].status = ProjectStatus.FINISHED\<close>.
  In \<open>array_mutating_env\<close> the listener 0 runs \<^verbatim>\<open>items.length = 0\<close> and every other
  listener \<^verbatim>\<open>items.reverse()\<close>. In \<open>repeating_env\<close> no listener does anything, and
  \<^verbatim>\<open>Math.random()\<close> returns 0.5 every time.
\<close>

definition finish :: "Project \<Rightarrow> Project" where
  "finish p = p\<lparr>status := FINISHED\<rparr>"

definition registering_env :: env where
  "registering_env =
     \<lparr>body = (\<lambda>l items. if l = 0 then [Call (AddListener 1)] else []),
      random = (\<lambda>k. ''0.5'')\<rparr>"

definition field_writing_env :: env where
  "field_writing_env =
     \<lparr>body = (\<lambda>l items. [FieldUpdate 0 finish]), random = (\<lambda>k. ''0.5'')\<rparr>"

definition array_mutating_env :: env where
  "array_mutating_env =
     \<lparr>body = (\<lambda>l items. if l = 0 then [ArrayUpdate (\<lambda>xs. [])] else [ArrayUpdate rev]),
      random = (\<lambda>k. ''0.5'')\<rparr>"

definition repeating_env :: env where
  "repeating_env = \<lparr>body = (\<lambda>l items. []), random = (\<lambda>k. ''0.5'')\<rparr>"

text \<open>
  In \<open>chain_env\<close> the listener 0 registers listener 1 and listener 1 registers
  listener 2, which does nothing. In \<open>self_registering_env\<close> every listener registers
  itself again. In \<open>throwing_env\<close> the listener 0 throws and every other listener
  does nothing.
\<close>

definition chain_env :: env where
  "chain_env =
     \<lparr>body = (\<lambda>l items. if l < 2 then [Call (AddListener (Suc l))] else []),
      random = (\<lambda>k. ''0.5'')\<rparr>"

definition self_registering_env :: env where
  "self_registering_env =
     \<lparr>body = (\<lambda>l items. [Call (AddListener l)]), random = (\<lambda>k. ''0.5'')\<rparr>"

definition throwing_env :: env where
  "throwing_env =
     \<lparr>body = (\<lambda>l items. if l = 0 then [Throw] else []), random = (\<lambda>k. ''0.5'')\<rparr>"

subsection \<open>The application's own store\<close>

text \<open>
  The application creates \<^verbatim>\<open>new ProjectList("active")\<close> and
  \<^verbatim>\<open>new ProjectList("finished")\<close>; each registers one listener in \<^verbatim>\<open>configure\<close>
  (listeners 0 and 1). Their bodies filter the array they receive into a new array and
  render it: no call of the store, no write to the array or to a project. \<open>random\<close>
  is one possible run of \<^verbatim>\<open>Math.random().toString()\<close>.
\<close>

definition app_env :: env where
  "app_env = \<lparr>body = (\<lambda>l items. []), random = (\<lambda>k. ''0.'' @ replicate (Suc k) (CHR ''7''))\<rparr>"

definition app_world :: world where
  "app_world = addListener 1 (addListener 0 newProjectState)"

section \<open>Properties of the store\<close>

subsection \<open>A notification pass over passive listeners\<close>

lemma wf_newProjectState: "wf newProjectState"
  by (simp add: wf_def newProjectState_def)

lemma perform_passive:
  "list_all is_ArrayUpdate acts \<Longrightarrow> a < length (arrays w) \<Longrightarrow>
   perform E n a acts w = Inr (w\<lparr>arrays := (arrays w)[a := own_updates acts (arrays w ! a)]\<rparr>)"
proof (induction acts arbitrary: w)
  case Nil
  then show ?case by simp
next
  case (Cons x acts)
  then obtain f where x: "x = ArrayUpdate f" by (cases x) auto
  from Cons show ?case by (simp add: x)
qed

lemma deliver_fields [simp]:
  "listeners (deliver E w l) = listeners w"
  "projects (deliver E w l) = projects w"
  "objects (deliver E w l) = objects w"
  "draws (deliver E w l) = draws w"
  "length (arrays (deliver E w l)) = Suc (length (arrays w))"
  by (simp_all add: deliver_def)

lemma deliver_store_array [simp]:
  "projects w < length (arrays w) \<Longrightarrow> arrays (deliver E w l) ! projects w = arrays w ! projects w"
  by (simp add: deliver_def nth_append)

lemma tasks_deliver [simp]:
  "projects w < length (arrays w) \<Longrightarrow> tasks (deliver E w l) = tasks w"
  by (simp add: tasks_def)

lemma foldl_deliver:
  "projects w < length (arrays w) \<Longrightarrow>
   foldl (deliver E) w ls =
     w\<lparr>arrays := arrays w @
          map (\<lambda>l. own_updates (body E l (tasks w)) (arrays w ! projects w)) ls,
       trace := trace w @
          map (\<lambda>(a, l). (l, a, tasks w)) (enumerate (length (arrays w)) ls)\<rparr>"
proof (induction ls arbitrary: w)
  case Nil
  then show ?case by simp
next
  case (Cons l ls)
  have "foldl (deliver E) w (l # ls) = foldl (deliver E) (deliver E w l) ls" by simp
  also have "\<dots> = (deliver E w l)\<lparr>arrays := arrays (deliver E w l) @
          map (\<lambda>l'. own_updates (body E l' (tasks w)) (arrays w ! projects w)) ls,
       trace := trace (deliver E w l) @
          map (\<lambda>(a, l'). (l', a, tasks w)) (enumerate (Suc (length (arrays w))) ls)\<rparr>"
    using Cons.IH [of "deliver E w l"] Cons.prems by simp
  also have "\<dots> = w\<lparr>arrays := arrays w @
          map (\<lambda>l. own_updates (body E l (tasks w)) (arrays w ! projects w)) (l # ls),
       trace := trace w @
          map (\<lambda>(a, l). (l, a, tasks w)) (enumerate (length (arrays w)) (l # ls))\<rparr>"
    by (simp add: deliver_def)
  finally show ?case .
qed

lemma updateListeners_from_passive:
  "\<forall>l\<in>set (drop i (listeners w)). passive_listener E l \<Longrightarrow>
   length (listeners w) - i \<le> n \<Longrightarrow> projects w < length (arrays w) \<Longrightarrow>
   updateListeners_from E n i w = Inr (foldl (deliver E) w (drop i (listeners w)))"
proof (induction n arbitrary: i w)
  case 0
  then show ?case by simp
next
  case (Suc n)
  show ?case
  proof (cases "i < length (listeners w)")
    case False
    then show ?thesis by simp
  next
    case True
    let ?l = "listeners w ! i"
    have dr: "drop i (listeners w) = ?l # drop (Suc i) (listeners w)"
      using True by (simp add: Cons_nth_drop_Suc)
    have pas: "list_all is_ArrayUpdate (body E ?l (tasks w))"
      using Suc.prems(1) dr by (simp add: passive_listener_def)
    let ?w2 = "w\<lparr>arrays := arrays w @ [arrays w ! projects w],
                  trace := trace w @ [(?l, length (arrays w), tasks w)]\<rparr>"
    have p: "perform E n (length (arrays w)) (body E ?l (tasks w)) ?w2 = Inr (deliver E w ?l)"
      using perform_passive [OF pas, of "length (arrays w)" ?w2 E n]
      by (simp add: deliver_def)
    have step: "updateListeners_from E (Suc n) i w =
                updateListeners_from E n (Suc i) (deliver E w ?l)"
      using True Suc.prems(3) p by (simp add: slice_def tasks_def Let_def nth_append)
    have "updateListeners_from E n (Suc i) (deliver E w ?l) =
          Inr (foldl (deliver E) (deliver E w ?l) (drop (Suc i) (listeners (deliver E w ?l))))"
      using Suc.prems dr True by (intro Suc.IH) (auto simp: deliver_def)
    then show ?thesis using step dr by simp
  qed
qed

lemma updateListeners_passive:
  assumes "\<forall>l\<in>set (listeners w). passive_listener E l"
    and "length (listeners w) \<le> n" and "projects w < length (arrays w)"
  shows "updateListeners E n w = Inr (notified E w)"
  using updateListeners_from_passive [of 0 w E n] assms foldl_deliver [of w E "listeners w"]
  by (simp add: updateListeners_def notified_def)

lemma notified_fields [simp]:
  "listeners (notified E w) = listeners w"
  "projects (notified E w) = projects w"
  "objects (notified E w) = objects w"
  "draws (notified E w) = draws w"
  by (simp_all add: notified_def)

lemma notified_store_array [simp]:
  "projects w < length (arrays w) \<Longrightarrow> arrays (notified E w) ! projects w = arrays w ! projects w"
  by (simp add: notified_def nth_append)

lemma tasks_notified [simp]:
  "projects w < length (arrays w) \<Longrightarrow> tasks (notified E w) = tasks w"
  by (simp add: tasks_def)

lemma wf_notified: "wf w \<Longrightarrow> wf (notified E w)"
  by (simp add: wf_def) (simp add: notified_def)

lemma invoked_notified [simp]: "invoked w (notified E w) = listeners w"
  by (simp add: invoked_def notified_def comp_def case_prod_unfold enumerate_eq_zip)

lemma delivered_notified:
  "delivered w (notified E w) =
     map (\<lambda>a. (a, tasks w)) [length (arrays w) ..< length (arrays w) + length (listeners w)]"
  by (simp add: delivered_def notified_def comp_def case_prod_unfold enumerate_eq_zip
      flip: map_map [of "\<lambda>a. (a, tasks w)" fst, unfolded comp_def])

lemma notified_snapshot:
  "k < length (listeners w) \<Longrightarrow>
   arrays (notified E w) ! (length (arrays w) + k) =
     own_updates (body E (listeners w ! k) (tasks w)) (arrays w ! projects w)"
  by (simp add: notified_def nth_append)

lemma delivered_all_tasks:
  "projects w < length (arrays w) \<Longrightarrow>
   list_all (\<lambda>(a, snap). snap = tasks (notified E w)) (delivered w (notified E w))"
  by (simp add: delivered_notified list_all_iff)

subsection \<open>The two mutations\<close>

declare addProject.simps [simp del] moveProject.simps [simp del]

lemma addProject_pushed: "addProject E n t d p w = updateListeners E n (pushed E t d p w)"
  by (simp add: addProject.simps updateListeners_def pushed_def Let_def)

lemma moveProject_restatus:
  "moveProject E n i s w =
     (case find_project i w of
        None \<Rightarrow> Inr w
      | Some r \<Rightarrow> if status (objects w ! r) \<noteq> s
                  then updateListeners E n (restatus r s w) else Inr w)"
  by (simp add: moveProject.simps updateListeners_def restatus_def split: option.split)

lemma pushed_fields [simp]:
  "listeners (pushed E t d p w) = listeners w"
  "projects (pushed E t d p w) = projects w"
  "draws (pushed E t d p w) = Suc (draws w)"
  "trace (pushed E t d p w) = trace w"
  "length (arrays (pushed E t d p w)) = length (arrays w)"
  by (simp_all add: pushed_def)

lemma pushed_store_array:
  "projects w < length (arrays w) \<Longrightarrow>
   arrays (pushed E t d p w) ! projects w = arrays w ! projects w @ [length (objects w)]"
  by (simp add: pushed_def)

lemma tasks_pushed:
  "wf w \<Longrightarrow> tasks (pushed E t d p w) =
     tasks w @ [\<lparr>id_p = random E (draws w), title = t, description = d, people = p,
                 status = ACTIVE\<rparr>]"
  by (simp add: tasks_def wf_def pushed_def nth_append list_all_iff)

lemma wf_pushed: "wf w \<Longrightarrow> wf (pushed E t d p w)"
  by (auto simp add: wf_def pushed_def list_all_iff)

lemma restatus_fields [simp]:
  "listeners (restatus r s w) = listeners w"
  "projects (restatus r s w) = projects w"
  "arrays (restatus r s w) = arrays w"
  "draws (restatus r s w) = draws w"
  "trace (restatus r s w) = trace w"
  "length (objects (restatus r s w)) = length (objects w)"
  by (simp_all add: restatus_def)

lemma wf_restatus: "wf w \<Longrightarrow> wf (restatus r s w)"
  by (simp add: wf_def)


lemma tasks_restatus_nth:
  assumes "wf w" and "k < length (tasks w)"
  shows "tasks (restatus r s w) ! k =
           (if arrays w ! projects w ! k = r then (tasks w ! k)\<lparr>status := s\<rparr> else tasks w ! k)"
proof -
  have "arrays w ! projects w ! k < length (objects w)"
    using assms by (simp add: wf_def tasks_def list_all_length)
  then show ?thesis using assms(2) by (simp add: tasks_def restatus_def)
qed

lemma length_tasks_restatus [simp]: "length (tasks (restatus r s w)) = length (tasks w)"
  by (simp add: tasks_def)

lemma invoked_trace_eq: "trace w1 = trace w \<Longrightarrow> invoked w1 w' = invoked w w'"
  by (simp add: invoked_def)

lemma delivered_trace_eq: "trace w1 = trace w \<Longrightarrow> delivered w1 w' = delivered w w'"
  by (simp add: delivered_def)

lemma find_project_Some:
  "find_project i w = Some r \<Longrightarrow> r \<in> set (arrays w ! projects w) \<and> id_p (objects w ! r) = i"
  by (auto simp: find_project_def find_Some_iff)



lemma addProject_passive:
  assumes "wf w" and "\<forall>l\<in>set (listeners w). passive_listener E l" and "length (listeners w) \<le> n"
  shows "addProject E n t d p w = Inr (notified E (pushed E t d p w))"
  using assms updateListeners_passive [of "pushed E t d p w" E n]
  by (simp add: addProject_pushed wf_def)

lemma moveProject_passive:
  assumes "wf w" and "\<forall>l\<in>set (listeners w). passive_listener E l" and "length (listeners w) \<le> n"
    and "find_project i w = Some r" and "status (objects w ! r) \<noteq> s"
  shows "moveProject E n i s w = Inr (notified E (restatus r s w))"
  using assms updateListeners_passive [of "restatus r s w" E n]
  by (simp add: moveProject_restatus wf_def)

lemma wf_addProject_passive:
  assumes "wf w" and "\<forall>l\<in>set (listeners w). passive_listener E l" and "length (listeners w) \<le> n"
  shows "\<exists>w'. addProject E n t d p w = Inr w' \<and> wf w' \<and> listeners w' = listeners w \<and>
            draws w' = Suc (draws w) \<and>
            tasks w' = tasks w @ [\<lparr>id_p = random E (draws w), title = t, description = d,
                                   people = p, status = ACTIVE\<rparr>]"
proof -
  let ?w1 = "pushed E t d p w"
  have "projects ?w1 < length (arrays ?w1)" using assms(1) by (simp add: wf_def)
  then have "tasks (notified E ?w1) = tasks ?w1" by simp
  then show ?thesis
    using addProject_passive [OF assms] wf_notified [OF wf_pushed [OF assms(1)], of E E t d p]
      tasks_pushed [OF assms(1), of E t d p]
    by simp
qed

lemma addProjects_passive:
  assumes "wf w" and "\<forall>l\<in>set (listeners w). passive_listener E l" and "length (listeners w) \<le> n"
  shows "\<exists>w'. addProjects E n rs w = Inr w' \<and> wf w' \<and> listeners w' = listeners w \<and>
            draws w' = draws w + length rs \<and>
            map id_p (tasks w') =
              map id_p (tasks w) @ map (random E) [draws w ..< draws w + length rs]"
  using assms
proof (induction rs arbitrary: w)
  case Nil
  then show ?case by simp
next
  case (Cons x rs)
  obtain t d p where x: "x = (t, d, p)" by (cases x) auto
  from wf_addProject_passive [OF Cons.prems, of t d p]
  obtain w1 where w1: "addProject E n t d p w = Inr w1" "wf w1" "listeners w1 = listeners w"
    "draws w1 = Suc (draws w)"
    "tasks w1 = tasks w @ [\<lparr>id_p = random E (draws w), title = t, description = d,
                                   people = p, status = ACTIVE\<rparr>]"
    by blast
  from Cons.IH [of w1] w1 Cons.prems
  obtain w' where w': "addProjects E n rs w1 = Inr w'" "wf w'" "listeners w' = listeners w1"
    "draws w' = draws w1 + length rs"
    "map id_p (tasks w') = map id_p (tasks w1) @ map (random E) [draws w1 ..< draws w1 + length rs]"
    by auto
  have "[draws w ..< draws w + length (x # rs)] = draws w # [Suc (draws w) ..< Suc (draws w) + length rs]"
    by (subst upt_rec) simp
  then show ?case using w1 w' x by simp
qed

subsection \<open>Well-formedness is an invariant\<close>

text \<open>
  Whatever the listeners do, a call that returns leaves the store well-formed: a
  listener writes to the array it was handed, which is never the store's array, and
  to objects that exist. So every store reached from \<open>newProjectState\<close> through the
  public methods is well-formed.
\<close>

lemma extends_refl: "wf w \<Longrightarrow> extends w w"
  by (simp add: extends_def)

lemma extends_trans: "extends w w1 \<Longrightarrow> extends w1 w2 \<Longrightarrow> extends w w2"
  by (auto simp: extends_def)

lemma wf_invariant_aux:
  "(wf w \<longrightarrow> (\<forall>w'. updateListeners_from E n i w = Inr w' \<longrightarrow> extends w w'))"
  "(wf w \<longrightarrow> projects w < a \<longrightarrow> (\<forall>w'. perform E n a xs w = Inr w' \<longrightarrow> extends w w'))"
  "(wf w \<longrightarrow> projects w < a \<longrightarrow> (\<forall>w'. exec E n a x w = Inr w' \<longrightarrow> extends w w'))"
  "(wf w \<longrightarrow> (\<forall>w'. addProject E n t d p w = Inr w' \<longrightarrow> extends w w'))"
  "(wf w \<longrightarrow> (\<forall>w'. moveProject E n pid s w = Inr w' \<longrightarrow> extends w w'))"
proof (induction E n i w and E n a xs w and E n a x w and E n t d p w and E n pid s w
    rule: updateListeners_from_perform_exec_addProject_moveProject.induct)
  case (1 E i w)
  then show ?case by (simp add: extends_def)
next
  case (2 E n i w)
  show ?case
  proof (intro impI allI)
    fix w' assume wf: "wf w" and r: "updateListeners_from E (Suc n) i w = Inr w'"
    show "extends w w'"
    proof (cases "i < length (listeners w)")
      case False
      with r wf show ?thesis by (simp add: extends_def)
    next
      case True
      let ?a = "length (arrays w)"
      let ?w1 = "w\<lparr>arrays := arrays w @ [arrays w ! projects w]\<rparr>"
      let ?items = "map (\<lambda>r. objects ?w1 ! r) (arrays ?w1 ! ?a)"
      let ?w2 = "?w1\<lparr>trace := trace ?w1 @ [(listeners w ! i, ?a, ?items)]\<rparr>"
      have sl: "slice (projects w) w = (?a, ?w1)" by (simp add: slice_def)
      have wf2: "wf ?w2" using wf by (simp add: wf_def nth_append)
      have pa: "projects ?w2 < ?a" using wf by (simp add: wf_def)
      from r True obtain w3 where
        p: "perform E n ?a (body E (listeners w ! i) ?items) ?w2 = Inr w3"
        and l: "updateListeners_from E n (i + 1) w3 = Inr w'"
        by (simp add: sl Let_def split: sum.splits)
      have e1: "extends ?w2 w3"
        using "2.IH"(1) [OF True refl sl [symmetric] refl refl refl] wf2 pa p by simp
      then have "wf w3" by (simp add: extends_def)
      then have e2: "extends w3 w'"
        using "2.IH"(2) [OF True refl sl [symmetric] refl refl refl p] l by simp
      have "extends w ?w2" using wf2 by (simp add: extends_def)
      then show ?thesis using e1 e2 extends_trans by blast
    qed
  qed
next
  case (3 E n a w)
  then show ?case by (simp add: extends_def)
next
  case (4 E n a x xs w)
  show ?case
  proof (intro impI allI)
    fix w' assume wf: "wf w" and a: "projects w < a" and r: "perform E n a (x # xs) w = Inr w'"
    from r obtain w1 where x: "exec E n a x w = Inr w1" and p: "perform E n a xs w1 = Inr w'"
      by (simp split: sum.splits)
    have e1: "extends w w1" using "4.IH"(1) wf a x by simp
    then have "wf w1" "projects w1 < a" using a by (simp_all add: extends_def)
    then have "extends w1 w'" using "4.IH"(2) [OF x] p by simp
    then show "extends w w'" using e1 extends_trans by blast
  qed
next
  case (5 E n a l w)
  then show ?case by (simp add: extends_def wf_def addListener_def)
next
  case (6 E n a t d p w)
  then show ?case by simp
next
  case (7 E n a i s w)
  then show ?case by simp
next
  case (8 E n a f w)
  then show ?case by (auto simp: extends_def wf_def)
next
  case (9 E n a i f w)
  then show ?case by (auto simp: extends_def wf_def split: if_splits)
next
  case (10 E n a w)
  then show ?case by simp
next
  case (11 E n title' description' people' w)
  show ?case
  proof (intro impI allI)
    fix w' assume wf: "wf w" and r: "addProject E n title' description' people' w = Inr w'"
    have "wf (pushed E title' description' people' w)" using wf by (rule wf_pushed)
    moreover have "updateListeners_from E n 0 (pushed E title' description' people' w) = Inr w'"
      using r by (simp add: addProject_pushed updateListeners_def)
    ultimately have "extends (pushed E title' description' people' w) w'"
      using "11.IH" [OF refl refl refl refl] by (simp add: pushed_def)
    then show "extends w w'" by (simp add: extends_def)
  qed
next
  case (12 E n projectId newStatus w)
  show ?case
  proof (intro impI allI)
    fix w' assume wf: "wf w" and r: "moveProject E n projectId newStatus w = Inr w'"
    show "extends w w'"
    proof (cases "find_project projectId w")
      case None
      with r wf show ?thesis by (simp add: moveProject_restatus extends_def)
    next
      case (Some r0)
      show ?thesis
      proof (cases "status (objects w ! r0) = newStatus")
        case True
        with Some r wf show ?thesis by (simp add: moveProject_restatus extends_def)
      next
        case False
        have "wf (restatus r0 newStatus w)" using wf by (rule wf_restatus)
        moreover have "updateListeners_from E n 0 (restatus r0 newStatus w) = Inr w'"
          using r Some False by (simp add: moveProject_restatus updateListeners_def)
        ultimately have "extends (restatus r0 newStatus w) w'"
          using "12.IH" [OF Some] False by (simp add: restatus_def)
        then show ?thesis by (simp add: extends_def)
      qed
    qed
  qed
qed

lemma wf_addListener: "wf w \<Longrightarrow> wf (addListener l w)"
  by (simp add: wf_def addListener_def)

lemma wf_addProject: "wf w \<Longrightarrow> addProject E n t d p w = Inr w' \<Longrightarrow> wf w'"
  using wf_invariant_aux(4) [of w E n t d p] by (simp add: extends_def)

lemma wf_moveProject: "wf w \<Longrightarrow> moveProject E n i s w = Inr w' \<Longrightarrow> wf w'"
  using wf_invariant_aux(5) [of w E n i s] by (simp add: extends_def)

subsection \<open>What every call preserves\<close>

text \<open>
  For arbitrary listeners: a call that returns has only extended the store's array,
  the listener sequence and the trace, and a pass that returns has invoked every
  listener that is registered at its end, in registration order (between two of them
  the trace may hold the invocations of passes that the first one started).
\<close>

lemma grows_refl: "wf w \<Longrightarrow> grows w w"
  by (simp add: grows_def extends_def)

lemma grows_trans: "grows w w1 \<Longrightarrow> grows w1 w2 \<Longrightarrow> grows w w2"
  unfolding grows_def
  by (auto simp: extends_def intro: prefix_order.trans)

lemma grows_aux:
  "(wf w \<longrightarrow> (\<forall>w'. updateListeners_from E n i w = Inr w' \<longrightarrow>
      grows w w' \<and>
      subseq (drop i (listeners w')) (map fst (drop (length (trace w)) (trace w')))))"
  "(wf w \<longrightarrow> projects w < a \<longrightarrow> (\<forall>w'. perform E n a xs w = Inr w' \<longrightarrow> grows w w'))"
  "(wf w \<longrightarrow> projects w < a \<longrightarrow> (\<forall>w'. exec E n a x w = Inr w' \<longrightarrow> grows w w'))"
  "(wf w \<longrightarrow> (\<forall>w'. addProject E n t d p w = Inr w' \<longrightarrow> grows w w'))"
  "(wf w \<longrightarrow> (\<forall>w'. moveProject E n pid s w = Inr w' \<longrightarrow> grows w w'))"
proof (induction E n i w and E n a xs w and E n a x w and E n t d p w and E n pid s w
    rule: updateListeners_from_perform_exec_addProject_moveProject.induct)
  case (1 E i w)
  then show ?case by (simp add: grows_refl)
next
  case (2 E n i w)
  show ?case
  proof (intro impI allI)
    fix w' assume wf: "wf w" and r: "updateListeners_from E (Suc n) i w = Inr w'"
    show "grows w w' \<and>
      subseq (drop i (listeners w')) (map fst (drop (length (trace w)) (trace w')))"
    proof (cases "i < length (listeners w)")
      case False
      with r wf show ?thesis by (simp add: grows_refl)
    next
      case True
      let ?a = "length (arrays w)"
      let ?l = "listeners w ! i"
      let ?w1 = "w\<lparr>arrays := arrays w @ [arrays w ! projects w]\<rparr>"
      let ?items = "map (\<lambda>r. objects ?w1 ! r) (arrays ?w1 ! ?a)"
      let ?w2 = "?w1\<lparr>trace := trace ?w1 @ [(?l, ?a, ?items)]\<rparr>"
      have sl: "slice (projects w) w = (?a, ?w1)" by (simp add: slice_def)
      have wf2: "wf ?w2" using wf by (simp add: wf_def nth_append)
      have pa: "projects ?w2 < ?a" using wf by (simp add: wf_def)
      from r True obtain w3 where
        p: "perform E n ?a (body E ?l ?items) ?w2 = Inr w3"
        and l: "updateListeners_from E n (i + 1) w3 = Inr w'"
        by (simp add: sl Let_def split: sum.splits)
      have g0: "grows w ?w2"
        using wf wf2 by (simp add: grows_def extends_def wf_def nth_append)
      have g1: "grows ?w2 w3"
        using "2.IH"(1) [OF True refl sl [symmetric] refl refl refl] wf2 pa p by simp
      then have wf3: "wf w3" by (simp add: grows_def extends_def)
      have g2: "grows w3 w' \<and>
          subseq (drop (i + 1) (listeners w')) (map fst (drop (length (trace w3)) (trace w')))"
        using "2.IH"(2) [OF True refl sl [symmetric] refl refl refl p] wf3 l by simp
      have g: "grows w w'" using g0 g1 g2 grows_trans by blast
      from g1 obtain t2 where t2: "trace w3 = trace w @ [(?l, ?a, ?items)] @ t2"
        by (auto simp: grows_def prefix_def)
      from g2 obtain t3 where t3: "trace w' = trace w3 @ t3"
        by (auto simp: grows_def prefix_def)
      from g obtain ls where ls: "listeners w' = listeners w @ ls"
        by (auto simp: grows_def prefix_def)
      have dr: "drop i (listeners w') = ?l # drop (i + 1) (listeners w')"
        using True by (simp add: ls Cons_nth_drop_Suc [symmetric] nth_append)
      have s3: "subseq (drop (i + 1) (listeners w')) (map fst t3)"
        using g2 by (simp add: t3)
      have "map fst (drop (length (trace w)) (trace w')) = ?l # (map fst t2 @ map fst t3)"
        by (simp add: t3 t2)
      moreover have "subseq (?l # drop (i + 1) (listeners w')) (?l # (map fst t2 @ map fst t3))"
        using s3 by (simp add: list_emb_append2)
      ultimately show ?thesis using g dr by simp
    qed
  qed
next
  case (3 E n a w)
  then show ?case by (simp add: grows_refl)
next
  case (4 E n a x xs w)
  show ?case
  proof (intro impI allI)
    fix w' assume wf: "wf w" and a: "projects w < a" and r: "perform E n a (x # xs) w = Inr w'"
    from r obtain w1 where x: "exec E n a x w = Inr w1" and p: "perform E n a xs w1 = Inr w'"
      by (simp split: sum.splits)
    have e1: "grows w w1" using "4.IH"(1) wf a x by simp
    then have "wf w1" "projects w1 < a" using a by (simp_all add: grows_def extends_def)
    then have "grows w1 w'" using "4.IH"(2) [OF x] p by simp
    then show "grows w w'" using e1 grows_trans by blast
  qed
next
  case (5 E n a l w)
  then show ?case by (simp add: grows_def extends_def wf_def addListener_def)
next
  case (6 E n a t d p w)
  then show ?case by simp
next
  case (7 E n a i s w)
  then show ?case by simp
next
  case (8 E n a f w)
  then show ?case by (auto simp: grows_def extends_def wf_def)
next
  case (9 E n a i f w)
  then show ?case by (auto simp: grows_def extends_def wf_def split: if_splits)
next
  case (10 E n a w)
  then show ?case by simp
next
  case (11 E n title' description' people' w)
  show ?case
  proof (intro impI allI)
    fix w' assume wf: "wf w" and r: "addProject E n title' description' people' w = Inr w'"
    let ?w1 = "pushed E title' description' people' w"
    have w1: "wf ?w1" using wf by (rule wf_pushed)
    have "updateListeners_from E n 0 ?w1 = Inr w'"
      using r by (simp add: addProject_pushed updateListeners_def)
    then have "grows ?w1 w'"
      using "11.IH" [OF refl refl refl refl] w1 by (simp add: pushed_def)
    moreover have "grows w ?w1"
      using wf w1 by (simp add: grows_def extends_def wf_def pushed_store_array)
    ultimately show "grows w w'" using grows_trans by blast
  qed
next
  case (12 E n projectId newStatus w)
  show ?case
  proof (intro impI allI)
    fix w' assume wf: "wf w" and r: "moveProject E n projectId newStatus w = Inr w'"
    show "grows w w'"
    proof (cases "find_project projectId w")
      case None
      with r wf show ?thesis by (simp add: moveProject_restatus grows_refl)
    next
      case (Some r0)
      show ?thesis
      proof (cases "status (objects w ! r0) = newStatus")
        case True
        with Some r wf show ?thesis by (simp add: moveProject_restatus grows_refl)
      next
        case False
        let ?w1 = "restatus r0 newStatus w"
        have w1: "wf ?w1" using wf by (rule wf_restatus)
        have "updateListeners_from E n 0 ?w1 = Inr w'"
          using r Some False by (simp add: moveProject_restatus updateListeners_def)
        then have "grows ?w1 w'"
          using "12.IH" [OF Some] False w1 by (simp add: restatus_def)
        moreover have "grows w ?w1"
          using wf w1 by (simp add: grows_def extends_def)
        ultimately show ?thesis using grows_trans by blast
      qed
    qed
  qed
qed

lemma grows_updateListeners:
  "wf w \<Longrightarrow> updateListeners E n w = Inr w' \<Longrightarrow>
   grows w w' \<and> subseq (listeners w') (invoked w w')"
  using grows_aux(1) [of w E n 0] by (simp add: updateListeners_def invoked_def)

lemma grows_addProject: "wf w \<Longrightarrow> addProject E n t d p w = Inr w' \<Longrightarrow> grows w w'"
  using grows_aux(4) by blast

lemma grows_moveProject: "wf w \<Longrightarrow> moveProject E n i s w = Inr w' \<Longrightarrow> grows w w'"
  using grows_aux(5) by blast

lemma subseq_addProject:
  assumes "wf w" and "addProject E n t d p w = Inr w'"
  shows "subseq (listeners w') (invoked w w')"
proof -
  let ?w1 = "pushed E t d p w"
  have "updateListeners E n ?w1 = Inr w'" using assms(2) by (simp add: addProject_pushed)
  then have "subseq (listeners w') (invoked ?w1 w')"
    using grows_updateListeners [OF wf_pushed [OF assms(1)]] by blast
  then show ?thesis using invoked_trace_eq [of ?w1 w w'] by simp
qed

lemma subseq_moveProject:
  assumes "wf w" and "find_project i w = Some r" and "status (objects w ! r) \<noteq> s"
    and "moveProject E n i s w = Inr w'"
  shows "subseq (listeners w') (invoked w w')"
proof -
  let ?w1 = "restatus r s w"
  have "updateListeners E n ?w1 = Inr w'" using assms by (simp add: moveProject_restatus)
  then have "subseq (listeners w') (invoked ?w1 w')"
    using grows_updateListeners [OF wf_restatus [OF assms(1)]] by blast
  then show ?thesis using invoked_trace_eq [of ?w1 w w'] by simp
qed

lemma subseq_start:
  "grows w w' \<Longrightarrow> subseq (listeners w') xs \<Longrightarrow> subseq (listeners w) xs"
  by (meson grows_def prefix_imp_subseq subseq_order.trans)

lemma exec_no_pass:
  "no_pass_call x \<Longrightarrow> exec E n a x w = Inr w' \<Longrightarrow> trace w' = trace w"
proof (cases x)
  case (Call c)
  assume "no_pass_call x" "exec E n a x w = Inr w'"
  with Call show ?thesis by (cases c) (auto simp: addListener_def)
next
  case (ArrayUpdate f)
  assume "exec E n a x w = Inr w'"
  with ArrayUpdate show ?thesis by auto
next
  case (FieldUpdate i f)
  assume "exec E n a x w = Inr w'"
  with FieldUpdate show ?thesis by (auto split: if_splits)
next
  case Throw
  assume "exec E n a x w = Inr w'"
  with Throw show ?thesis by simp
qed

lemma perform_no_pass:
  "list_all no_pass_call acts \<Longrightarrow> perform E n a acts w = Inr w' \<Longrightarrow> trace w' = trace w"
proof (induction acts arbitrary: w)
  case Nil
  then show ?case by simp
next
  case (Cons x acts)
  from Cons.prems(2) obtain w1 where x: "exec E n a x w = Inr w1"
    and p: "perform E n a acts w1 = Inr w'"
    by (simp split: sum.splits)
  have "no_pass_call x" using Cons.prems(1) by simp
  then have "trace w1 = trace w" using x by (rule exec_no_pass)
  moreover have "trace w' = trace w1" using Cons.IH [OF _ p] Cons.prems(1) by simp
  ultimately show ?case by simp
qed

lemma updateListeners_from_exact:
  "wf w \<Longrightarrow> updateListeners_from E n i w = Inr w' \<Longrightarrow>
   \<forall>l\<in>set (listeners w'). starts_no_pass E l \<Longrightarrow>
   map fst (drop (length (trace w)) (trace w')) = drop i (listeners w')"
proof (induction n arbitrary: i w)
  case 0
  then show ?case by (simp split: if_splits)
next
  case (Suc n)
  show ?case
  proof (cases "i < length (listeners w)")
    case False
    with Suc.prems show ?thesis by simp
  next
    case True
    let ?a = "length (arrays w)"
    let ?l = "listeners w ! i"
    let ?w1 = "w\<lparr>arrays := arrays w @ [arrays w ! projects w]\<rparr>"
    let ?items = "map (\<lambda>r. objects ?w1 ! r) (arrays ?w1 ! ?a)"
    let ?w2 = "?w1\<lparr>trace := trace ?w1 @ [(?l, ?a, ?items)]\<rparr>"
    have wf2: "wf ?w2" using Suc.prems(1) by (simp add: wf_def nth_append)
    have pa: "projects ?w2 < ?a" using Suc.prems(1) by (simp add: wf_def)
    from Suc.prems(2) True obtain w3 where
      p: "perform E n ?a (body E ?l ?items) ?w2 = Inr w3"
      and l: "updateListeners_from E n (i + 1) w3 = Inr w'"
      by (simp add: slice_def Let_def split: sum.splits)
    have g1: "grows ?w2 w3" using grows_aux(2) wf2 pa p by blast
    then have wf3: "wf w3" by (simp add: grows_def extends_def)
    have g2: "grows w3 w'" using grows_aux(1) wf3 l by blast
    from g1 g2 obtain ls where ls: "listeners w' = listeners w @ ls"
      by (auto simp: grows_def prefix_def)
    from g2 obtain t3 where t3: "trace w' = trace w3 @ t3"
      by (auto simp: grows_def prefix_def)
    have "?l \<in> set (listeners w')" using True by (simp add: ls)
    then have "list_all no_pass_call (body E ?l ?items)"
      using Suc.prems(3) by (simp add: starts_no_pass_def)
    then have tr3: "trace w3 = trace w @ [(?l, ?a, ?items)]"
      using perform_no_pass [OF _ p] by simp
    have ih: "map fst (drop (length (trace w3)) (trace w')) = drop (i + 1) (listeners w')"
      using Suc.IH [OF wf3 l Suc.prems(3)] .
    have dr: "drop i (listeners w') = ?l # drop (i + 1) (listeners w')"
      using True by (simp add: ls Cons_nth_drop_Suc [symmetric] nth_append)
    have "map fst (drop (length (trace w)) (trace w')) = ?l # map fst t3"
      by (simp add: t3 tr3)
    moreover have "map fst t3 = drop (i + 1) (listeners w')"
      using ih by (simp add: t3)
    ultimately show ?thesis using dr by simp
  qed
qed

lemma first_delivery:
  assumes "wf w" and "listeners w \<noteq> []" and "updateListeners E n w = Inr w'"
  shows "hd (invoked w w') = hd (listeners w) \<and> hd (delivered w w') = (length (arrays w), tasks w)"
proof -
  let ?a = "length (arrays w)"
  let ?l = "listeners w ! 0"
  let ?w1 = "w\<lparr>arrays := arrays w @ [arrays w ! projects w]\<rparr>"
  let ?items = "map (\<lambda>r. objects ?w1 ! r) (arrays ?w1 ! ?a)"
  let ?w2 = "?w1\<lparr>trace := trace ?w1 @ [(?l, ?a, ?items)]\<rparr>"
  have L: "0 < length (listeners w)" using assms(2) by simp
  from assms(3) L obtain m where n: "n = Suc m"
    by (cases n) (simp_all add: updateListeners_def)
  have wf2: "wf ?w2" using assms(1) by (simp add: wf_def nth_append)
  have pa: "projects ?w2 < ?a" using assms(1) by (simp add: wf_def)
  from assms(3) L obtain w3 where
    p: "perform E m ?a (body E ?l ?items) ?w2 = Inr w3"
    and l: "updateListeners_from E m (0 + 1) w3 = Inr w'"
    by (simp add: updateListeners_def n slice_def Let_def split: sum.splits)
  have g1: "grows ?w2 w3" using grows_aux(2) wf2 pa p by blast
  then have wf3: "wf w3" by (simp add: grows_def extends_def)
  have g2: "grows w3 w'" using grows_aux(1) wf3 l by blast
  from g1 obtain t2 where t2: "trace w3 = trace w @ [(?l, ?a, ?items)] @ t2"
    by (auto simp: grows_def prefix_def)
  from g2 obtain t3 where t3: "trace w' = trace w3 @ t3"
    by (auto simp: grows_def prefix_def)
  have "arrays ?w1 ! ?a = arrays w ! projects w" by (simp add: nth_append)
  then have it: "?items = tasks w" unfolding tasks_def by simp
  have "drop (length (trace w)) (trace w') = (?l, ?a, tasks w) # (t2 @ t3)"
    by (simp add: t3 t2 it [symmetric])
  then show ?thesis using L by (simp add: invoked_def delivered_def hd_conv_nth)
qed

subsection \<open>The concrete stores\<close>

lemma app_world_fields:
  "listeners app_world = [0, 1]" "projects app_world = 0" "arrays app_world = [[]]"
  "objects app_world = []" "draws app_world = 0" "trace app_world = []" "tasks app_world = []"
  by (simp_all add: app_world_def addListener_def newProjectState_def tasks_def)

lemma wf_app_world: "wf app_world"
  by (simp add: wf_def app_world_fields)

lemma passive_app_env: "passive_listener app_env l"
  by (simp add: passive_listener_def app_env_def)

lemma random_app_env:
  "random app_env 0 = ''0.7''" "random app_env (Suc 0) = ''0.77''"
  by (simp_all add: app_env_def)

lemma board_fields:
  "listeners board = [0, 1, 0]" "projects board = 0" "arrays board = [[0, 1]]"
  "draws board = 2" "trace board = []" "length (objects board) = 2"
  "tasks board = objects board"
  by (simp_all add: board_def tasks_def)

lemma wf_board: "wf board"
  by (simp add: wf_def board_def)

lemma find_project_board:
  "find_project ''0.7'' board = Some 0" "find_project ''0.77'' board = Some 1"
  "find_project ''zzz'' board = None"
  by (simp_all add: find_project_def board_def)

lemma passive_array_mutating_env: "passive_listener array_mutating_env l"
  by (simp add: passive_listener_def array_mutating_env_def)

lemma registering_registering_env: "registering registering_env l"
  by (simp add: registering_def registering_env_def passive_listener_def)

lemma body_registering_env:
  "body registering_env l items = (if l = 0 then [Call (AddListener 1)] else [])"
  by (simp add: registering_env_def)

lemma starts_no_pass_chain_env: "starts_no_pass chain_env l"
  by (simp add: starts_no_pass_def chain_env_def)

lemma chain_pass_returns:
  "\<exists>w'. updateListeners chain_env 3 (addListener 0 newProjectState) = Inr w' \<and>
        listeners w' = [0, 1, 2]"
  by (simp add: updateListeners_def chain_env_def addListener_def newProjectState_def
      slice_def Let_def eval_nat_numeral)

text \<open>
  A pass need not return. A listener that registers itself keeps the loop running:
  whatever the fuel, the pass runs out of it. A listener that throws ends the pass
  and the method that started it: the exception reaches the caller of \<^verbatim>\<open>addProject\<close>.
\<close>

lemma self_registering_pass_runs_on:
  "i < length (listeners w) \<Longrightarrow> updateListeners_from self_registering_env n i w = Inl OutOfFuel"
proof (induction n arbitrary: i w)
  case 0
  then show ?case by simp
next
  case (Suc n)
  then show ?case
    by (simp add: slice_def Let_def self_registering_env_def addListener_def)
qed

lemma self_registering_pass_never_returns:
  "updateListeners self_registering_env n (addListener 0 newProjectState) = Inl OutOfFuel"
  by (simp add: updateListeners_def self_registering_pass_runs_on addListener_def)

lemma throwing_listener_aborts:
  "addProject throwing_env (Suc n) t d p app_world = Inl Thrown"
  by (simp add: addProject.simps Let_def slice_def throwing_env_def app_world_def
      addListener_def newProjectState_def)

subsection \<open>Creation\<close>

text \<open>
  C6: \<^verbatim>\<open>addProject(title, description, people)\<close> constructs a task with a freshly
  drawn id (the next value of \<^verbatim>\<open>Math.random().toString()\<close>), the given title,
  description and people, and status \<open>ACTIVE\<close>, appends it at the end of the store's
  sequence and then starts one notification pass. Whatever the listeners do, when the
  call returns the store's array begins with the tasks that were there, in their
  places, followed by the new task; a draw was consumed; every listener registered
  at the call was invoked, in registration order; and the first of them received a
  snapshot that already ends with the new task, \<open>ACTIVE\<close>. When every registered
  listener is passive (it returns normally, does not call the store and does not
  write to a task), the call returns, the task sequence is the old one followed by
  the new task, and all subscribers are notified exactly once: each registered
  listener is invoked once per registration, with a snapshot that ends with the new
  task.
\<close>

theorem addProject_appends_active_task_and_notifies:
  "(wf w \<longrightarrow> (\<forall>w'. addProject E n t d p w = Inr w' \<longrightarrow>
       prefix (arrays w ! projects w @ [length (objects w)]) (arrays w' ! projects w') \<and>
       draws w < draws w' \<and>
       subseq (listeners w) (invoked w w') \<and>
       (listeners w \<noteq> [] \<longrightarrow>
          hd (invoked w w') = hd (listeners w) \<and>
          snd (hd (delivered w w')) =
            tasks w @ [\<lparr>id_p = random E (draws w), title = t, description = d,
                         people = p, status = ACTIVE\<rparr>]))) \<and>
   (wf w \<and> (\<forall>l\<in>set (listeners w). passive_listener E l) \<and> length (listeners w) \<le> n \<longrightarrow>
      (\<exists>w'. addProject E n t d p w = Inr w' \<and>
           tasks w' = tasks w @ [\<lparr>id_p = random E (draws w), title = t, description = d,
                                   people = p, status = ACTIVE\<rparr>] \<and>
           arrays w' ! projects w' = arrays w ! projects w @ [length (objects w)] \<and>
           draws w' = draws w + 1 \<and>
           invoked w w' = listeners w \<and>
           list_all (\<lambda>(a, snap). snap = tasks w @ [\<lparr>id_p = random E (draws w), title = t,
               description = d, people = p, status = ACTIVE\<rparr>]) (delivered w w') \<and>
           length (delivered w w') = length (listeners w) \<and>
           listeners w' = listeners w))"
proof (intro conjI impI allI)
  fix w' assume wf: "wf w" and a: "addProject E n t d p w = Inr w'"
  let ?w1 = "pushed E t d p w"
  have wf1: "wf ?w1" using wf by (rule wf_pushed)
  have u: "updateListeners E n ?w1 = Inr w'" using a by (simp add: addProject_pushed)
  have g: "grows ?w1 w'" using grows_updateListeners [OF wf1 u] by simp
  have pw: "projects w < length (arrays w)" using wf by (simp add: wf_def)
  show "prefix (arrays w ! projects w @ [length (objects w)]) (arrays w' ! projects w')"
    using g pushed_store_array [OF pw, of E t d p] by (simp add: grows_def)
  show "draws w < draws w'" using g by (simp add: grows_def)
  show "subseq (listeners w) (invoked w w')"
    using subseq_start [OF grows_addProject [OF wf a] subseq_addProject [OF wf a]] .
  assume ne: "listeners w \<noteq> []"
  then have "hd (invoked ?w1 w') = hd (listeners ?w1) \<and>
             hd (delivered ?w1 w') = (length (arrays ?w1), tasks ?w1)"
    using first_delivery [OF wf1 _ u] by simp
  then show "hd (invoked w w') = hd (listeners w)"
    and "snd (hd (delivered w w')) =
            tasks w @ [\<lparr>id_p = random E (draws w), title = t, description = d,
                         people = p, status = ACTIVE\<rparr>]"
    using invoked_trace_eq [of ?w1 w w'] delivered_trace_eq [of ?w1 w w']
      tasks_pushed [OF wf, of E t d p]
    by simp_all
next
  assume h: "wf w \<and> (\<forall>l\<in>set (listeners w). passive_listener E l) \<and> length (listeners w) \<le> n"
  let ?w1 = "pushed E t d p w"
  let ?new = "\<lparr>id_p = random E (draws w), title = t, description = d,
                people = p, status = ACTIVE\<rparr>"
  from h have wf: "wf w" by simp
  have p1: "projects ?w1 < length (arrays ?w1)" "projects w < length (arrays w)"
    using wf by (simp_all add: wf_def)
  have a: "addProject E n t d p w = Inr (notified E ?w1)"
    using h by (intro addProject_passive) auto
  have t1: "tasks (notified E ?w1) = tasks w @ [?new]"
    using p1 wf by (simp add: tasks_pushed)
  have ar: "arrays (notified E ?w1) ! projects (notified E ?w1) =
      arrays w ! projects w @ [length (objects w)]"
    using p1 notified_store_array [of ?w1 E] by (simp add: pushed_store_array)
  have iv: "invoked w (notified E ?w1) = listeners w"
    using invoked_trace_eq [of ?w1 w "notified E ?w1"] by simp
  have dl: "list_all (\<lambda>(a, snap). snap = tasks w @ [?new]) (delivered w (notified E ?w1))"
    using delivered_all_tasks [OF p1(1), of E] delivered_trace_eq [of ?w1 w "notified E ?w1"] t1
    by simp
  have "length (delivered ?w1 (notified E ?w1)) = length (listeners w)"
    by (simp add: delivered_notified)
  then have ln: "length (delivered w (notified E ?w1)) = length (listeners w)"
    using delivered_trace_eq [of ?w1 w "notified E ?w1"] by simp
  show "\<exists>w'. addProject E n t d p w = Inr w' \<and>
           tasks w' = tasks w @ [?new] \<and>
           arrays w' ! projects w' = arrays w ! projects w @ [length (objects w)] \<and>
           draws w' = draws w + 1 \<and>
           invoked w w' = listeners w \<and>
           list_all (\<lambda>(a, snap). snap = tasks w @ [?new]) (delivered w w') \<and>
           length (delivered w w') = length (listeners w) \<and>
           listeners w' = listeners w"
    using a t1 ar iv dl ln by simp
qed

theorem addProject_appends_active_task_and_notifies_witness:
  "wf app_world \<and> list_all (passive_listener app_env) (listeners app_world) \<and>
   length (listeners app_world) \<le> 2 \<and> listeners app_world \<noteq> [] \<and>
   (\<exists>w'. addProject app_env 2 ''Build API'' ''Design REST layer'' 3 app_world = Inr w' \<and>
      tasks w' = [\<lparr>id_p = ''0.7'', title = ''Build API'', description = ''Design REST layer'',
                   people = 3, status = ACTIVE\<rparr>] \<and>
      arrays w' ! projects w' = [0] \<and> draws w' = 1 \<and>
      invoked app_world w' = [0, 1] \<and>
      map snd (delivered app_world w') =
        [[\<lparr>id_p = ''0.7'', title = ''Build API'', description = ''Design REST layer'',
            people = 3, status = ACTIVE\<rparr>],
         [\<lparr>id_p = ''0.7'', title = ''Build API'', description = ''Design REST layer'',
            people = 3, status = ACTIVE\<rparr>]] \<and>
      snd (hd (delivered app_world w')) =
        [\<lparr>id_p = ''0.7'', title = ''Build API'', description = ''Design REST layer'',
           people = 3, status = ACTIVE\<rparr>] \<and>
      prefix [0] (arrays w' ! projects w') \<and>
      listeners w' = [0, 1])"
proof -
  let ?new = "\<lparr>id_p = ''0.7'', title = ''Build API'', description = ''Design REST layer'',
                people = 3::int, status = ACTIVE\<rparr>"
  have h: "wf app_world \<and> (\<forall>l\<in>set (listeners app_world). passive_listener app_env l) \<and>
           length (listeners app_world) \<le> 2"
    by (simp add: wf_app_world passive_app_env app_world_fields)
  have ne: "listeners app_world \<noteq> []" by (simp add: app_world_fields)
  note t = addProject_appends_active_task_and_notifies [where w = app_world and E = app_env
      and n = 2 and t = "''Build API''" and d = "''Design REST layer''" and p = 3]
  from t h obtain w' where w':
    "addProject app_env 2 ''Build API'' ''Design REST layer'' 3 app_world = Inr w'"
    "tasks w' = tasks app_world @ [\<lparr>id_p = random app_env (draws app_world),
        title = ''Build API'', description = ''Design REST layer'', people = 3, status = ACTIVE\<rparr>]"
    "arrays w' ! projects w' = arrays app_world ! projects app_world @ [length (objects app_world)]"
    "draws w' = draws app_world + 1"
    "invoked app_world w' = listeners app_world"
    "list_all (\<lambda>(a, snap). snap = tasks app_world @ [\<lparr>id_p = random app_env (draws app_world),
        title = ''Build API'', description = ''Design REST layer'', people = 3, status = ACTIVE\<rparr>])
       (delivered app_world w')"
    "length (delivered app_world w') = length (listeners app_world)"
    "listeners w' = listeners app_world"
    by blast
  have g: "prefix (arrays app_world ! projects app_world @ [length (objects app_world)])
             (arrays w' ! projects w') \<and>
           snd (hd (delivered app_world w')) =
             tasks app_world @ [\<lparr>id_p = random app_env (draws app_world),
                title = ''Build API'', description = ''Design REST layer'', people = 3,
                status = ACTIVE\<rparr>]"
    using t h ne w'(1) by blast
  have "length (delivered app_world w') = 2" using w'(7) by (simp add: app_world_fields)
  then obtain x y where xy: "delivered app_world w' = [x, y]"
    by (cases "delivered app_world w'" rule: list.exhaust)
       (auto simp: length_Suc_conv)
  have snaps: "map snd (delivered app_world w') = [[?new], [?new]]"
    using w'(6) xy by (auto simp: app_world_fields random_app_env)
  have "\<exists>w'. addProject app_env 2 ''Build API'' ''Design REST layer'' 3 app_world = Inr w' \<and>
      tasks w' = [?new] \<and>
      arrays w' ! projects w' = [0] \<and> draws w' = 1 \<and>
      invoked app_world w' = [0, 1] \<and>
      map snd (delivered app_world w') = [[?new], [?new]] \<and>
      snd (hd (delivered app_world w')) = [?new] \<and>
      prefix [0] (arrays w' ! projects w') \<and>
      listeners w' = [0, 1]"
    using w'(1,2,3,4,5,8) snaps g by (simp add: app_world_fields random_app_env)
  then show ?thesis using h ne by (simp add: passive_app_env list_all_iff)
qed

text \<open>
  Without the condition on the listeners the call need not notify all subscribers:
  the first of the two registered listeners throws, the pass ends there and
  \<^verbatim>\<open>addProject\<close> raises.
\<close>

theorem throwing_listener_aborts_addProject_counterexample:
  "addProject throwing_env 5 ''Build API'' ''Design REST layer'' 3 app_world = Inl Thrown"
  by (simp add: addProject.simps Let_def slice_def throwing_env_def app_world_def
      addListener_def newProjectState_def eval_nat_numeral)

subsection \<open>Notification fan-out\<close>

lemma notification_fan_out_passive:
  assumes "wf w" and "\<forall>l\<in>set (listeners w). passive_listener E l" and "length (listeners w) \<le> n"
  shows "(\<exists>w'. addProject E n t d p w = Inr w' \<and> invoked w w' = listeners w \<and>
            list_all (\<lambda>(a, snap). snap = tasks w') (delivered w w')) \<and>
         (\<forall>r. find_project i w = Some r \<and> status (objects w ! r) \<noteq> s \<longrightarrow>
            (\<exists>w'. moveProject E n i s w = Inr w' \<and> invoked w w' = listeners w \<and>
               list_all (\<lambda>(a, snap). snap = tasks w') (delivered w w'))) \<and>
         invoked w (addListener l w) = [] \<and> listeners (addListener l w) = listeners w @ [l]"
proof (intro conjI allI impI)
  let ?w1 = "pushed E t d p w"
  have p1: "projects ?w1 < length (arrays ?w1)" using assms(1) by (simp add: wf_def)
  have "addProject E n t d p w = Inr (notified E ?w1)"
    using assms by (rule addProject_passive)
  moreover have "invoked w (notified E ?w1) = listeners w"
    using invoked_trace_eq [of ?w1 w "notified E ?w1"] by simp
  moreover have "list_all (\<lambda>(a, snap). snap = tasks (notified E ?w1)) (delivered w (notified E ?w1))"
    using delivered_all_tasks [OF p1, of E] delivered_trace_eq [of ?w1 w "notified E ?w1"]
    by simp
  ultimately show "\<exists>w'. addProject E n t d p w = Inr w' \<and> invoked w w' = listeners w \<and>
            list_all (\<lambda>(a, snap). snap = tasks w') (delivered w w')"
    by blast
next
  fix r assume r: "find_project i w = Some r \<and> status (objects w ! r) \<noteq> s"
  let ?w1 = "restatus r s w"
  have p1: "projects ?w1 < length (arrays ?w1)" using assms(1) by (simp add: wf_def)
  have "moveProject E n i s w = Inr (notified E ?w1)"
    using assms r by (intro moveProject_passive) auto
  moreover have "invoked w (notified E ?w1) = listeners w"
    using invoked_trace_eq [of ?w1 w "notified E ?w1"] by simp
  moreover have "list_all (\<lambda>(a, snap). snap = tasks (notified E ?w1)) (delivered w (notified E ?w1))"
    using delivered_all_tasks [OF p1, of E] delivered_trace_eq [of ?w1 w "notified E ?w1"]
    by simp
  ultimately show "\<exists>w'. moveProject E n i s w = Inr w' \<and> invoked w w' = listeners w \<and>
            list_all (\<lambda>(a, snap). snap = tasks w') (delivered w w')"
    by blast
next
  show "invoked w (addListener l w) = []" by (simp add: invoked_def addListener_def)
  show "listeners (addListener l w) = listeners w @ [l]" by (simp add: addListener_def)
qed

text \<open>
  C5: for a single mutation of the store (\<^verbatim>\<open>addProject\<close>, or a \<^verbatim>\<open>moveProject\<close>
  that changes a status) that returns, whatever the listeners do, every listener
  registered when it began was invoked before it returned, in registration order.
  When every registered listener is passive (it returns normally, does not call the
  store and does not write to a task), the mutation returns, the listeners invoked
  are exactly the registered ones, in registration order and once per registration
  (so a function registered twice is invoked twice), and each receives a snapshot
  whose value is the full, unfiltered task sequence of the store after the mutation.
  \<^verbatim>\<open>addListener\<close> itself invokes nothing: it only appends the listener.
\<close>

theorem notification_fan_out:
  "(wf w \<longrightarrow> (\<forall>w'. addProject E n t d p w = Inr w' \<longrightarrow> subseq (listeners w) (invoked w w'))) \<and>
   (wf w \<longrightarrow> (\<forall>r w'. find_project i w = Some r \<and> status (objects w ! r) \<noteq> s \<and>
         moveProject E n i s w = Inr w' \<longrightarrow> subseq (listeners w) (invoked w w'))) \<and>
   (wf w \<and> (\<forall>l\<in>set (listeners w). passive_listener E l) \<and> length (listeners w) \<le> n \<longrightarrow>
      (\<exists>w'. addProject E n t d p w = Inr w' \<and> invoked w w' = listeners w \<and>
            list_all (\<lambda>(a, snap). snap = tasks w') (delivered w w')) \<and>
      (\<forall>r. find_project i w = Some r \<and> status (objects w ! r) \<noteq> s \<longrightarrow>
            (\<exists>w'. moveProject E n i s w = Inr w' \<and> invoked w w' = listeners w \<and>
               list_all (\<lambda>(a, snap). snap = tasks w') (delivered w w')))) \<and>
   invoked w (addListener l w) = [] \<and> listeners (addListener l w) = listeners w @ [l]"
proof (intro conjI impI allI)
  fix w' assume wf: "wf w" and a: "addProject E n t d p w = Inr w'"
  show "subseq (listeners w) (invoked w w')"
    using subseq_start [OF grows_addProject [OF wf a] subseq_addProject [OF wf a]] .
next
  fix r w'
  assume wf: "wf w"
    and m: "find_project i w = Some r \<and> status (objects w ! r) \<noteq> s \<and>
         moveProject E n i s w = Inr w'"
  have g: "grows w w'" using grows_moveProject [OF wf, of E n i s w'] m by simp
  have "subseq (listeners w') (invoked w w')"
    using subseq_moveProject [OF wf, of i r s E n w'] m by simp
  then show "subseq (listeners w) (invoked w w')" using g subseq_start by blast
next
  assume h: "wf w \<and> (\<forall>l\<in>set (listeners w). passive_listener E l) \<and> length (listeners w) \<le> n"
  then show "\<exists>w'. addProject E n t d p w = Inr w' \<and> invoked w w' = listeners w \<and>
            list_all (\<lambda>(a, snap). snap = tasks w') (delivered w w')"
    using notification_fan_out_passive [of w E n t d p i s l] by blast
next
  fix r
  assume h: "wf w \<and> (\<forall>l\<in>set (listeners w). passive_listener E l) \<and> length (listeners w) \<le> n"
    and r: "find_project i w = Some r \<and> status (objects w ! r) \<noteq> s"
  then show "\<exists>w'. moveProject E n i s w = Inr w' \<and> invoked w w' = listeners w \<and>
               list_all (\<lambda>(a, snap). snap = tasks w') (delivered w w')"
    using notification_fan_out_passive [of w E n t d p i s l] by blast
next
  show "invoked w (addListener l w) = []" by (simp add: invoked_def addListener_def)
  show "listeners (addListener l w) = listeners w @ [l]" by (simp add: addListener_def)
qed

theorem notification_fan_out_witness:
  "wf board \<and> list_all (passive_listener app_env) (listeners board) \<and>
   length (listeners board) \<le> 3 \<and>
   (\<exists>w'. addProject app_env 3 ''Ship'' ''Release the board'' 1 board = Inr w' \<and>
      invoked board w' = [0, 1, 0] \<and> subseq [0, 1, 0] (invoked board w') \<and>
      list_all (\<lambda>(a, snap). snap = tasks w') (delivered board w')) \<and>
   find_project ''0.7'' board = Some 0 \<and> status (objects board ! 0) \<noteq> FINISHED \<and>
   (\<exists>w'. moveProject app_env 3 ''0.7'' FINISHED board = Inr w' \<and>
      invoked board w' = [0, 1, 0] \<and> subseq [0, 1, 0] (invoked board w') \<and>
      list_all (\<lambda>(a, snap). snap = tasks w') (delivered board w')) \<and>
   invoked board (addListener 2 board) = [] \<and>
   listeners (addListener 2 board) = [0, 1, 0, 2]"
proof -
  have h: "wf board \<and> (\<forall>l\<in>set (listeners board). passive_listener app_env l) \<and>
           length (listeners board) \<le> 3"
    by (simp add: wf_board passive_app_env board_fields)
  have f: "find_project ''0.7'' board = Some 0 \<and> status (objects board ! 0) \<noteq> FINISHED"
    by (simp add: find_project_board) (simp add: board_def)
  note t = notification_fan_out [where w = board and E = app_env and n = 3 and t = "''Ship''"
      and d = "''Release the board''" and p = 1 and i = "''0.7''" and s = FINISHED and l = 2]
  from t h obtain w1 where w1: "addProject app_env 3 ''Ship'' ''Release the board'' 1 board = Inr w1"
    "invoked board w1 = listeners board"
    "list_all (\<lambda>(a, snap). snap = tasks w1) (delivered board w1)"
    by blast
  have s1: "subseq (listeners board) (invoked board w1)" using t h w1(1) by blast
  from t h f obtain w2 where w2: "moveProject app_env 3 ''0.7'' FINISHED board = Inr w2"
    "invoked board w2 = listeners board"
    "list_all (\<lambda>(a, snap). snap = tasks w2) (delivered board w2)"
    by blast
  have s2: "subseq (listeners board) (invoked board w2)" using t h f w2(1) by blast
  have a: "\<exists>w'. addProject app_env 3 ''Ship'' ''Release the board'' 1 board = Inr w' \<and>
      invoked board w' = [0, 1, 0] \<and> subseq [0, 1, 0] (invoked board w') \<and>
      list_all (\<lambda>(a, snap). snap = tasks w') (delivered board w')"
    using w1 s1 by (auto simp: board_fields)
  have b: "\<exists>w'. moveProject app_env 3 ''0.7'' FINISHED board = Inr w' \<and>
      invoked board w' = [0, 1, 0] \<and> subseq [0, 1, 0] (invoked board w') \<and>
      list_all (\<lambda>(a, snap). snap = tasks w') (delivered board w')"
    using w2 s2 by (auto simp: board_fields)
  have c: "invoked board (addListener 2 board) = [] \<and>
           listeners (addListener 2 board) = [0, 1, 0, 2]"
    using t by (simp add: board_fields)
  show ?thesis using h f a b c by (simp add: board_fields list_all_iff)
qed

text \<open>
  Without the condition on the listeners the snapshots need not be equal in value:
  both registered listeners assign \<open>FINISHED\<close> to the status of the first element
  of what they receive; the first one receives the new task as \<open>ACTIVE\<close>, the second
  one as \<open>FINISHED\<close>.
\<close>

theorem different_snapshots_counterexample:
  "map_sum id (map (map status \<circ> snd) \<circ> delivered app_world)
     (addProject field_writing_env 2 ''Build API'' ''Design REST layer'' 3 app_world) =
   Inr [[ACTIVE], [FINISHED]]"
  by (simp add: addProject.simps field_writing_env_def app_world_def addListener_def
      newProjectState_def slice_def Let_def delivered_def finish_def numeral_2_eq_2)

subsection \<open>Status transition\<close>



lemma moveProject_frame_passive:
  assumes "wf w" and "\<forall>l\<in>set (listeners w). passive_listener E l" and "length (listeners w) \<le> n"
  shows "\<exists>w'. moveProject E n i s w = Inr w' \<and>
           projects w' = projects w \<and>
           arrays w' ! projects w' = arrays w ! projects w \<and>
           length (tasks w') = length (tasks w) \<and>
           (\<forall>k<length (tasks w).
              id_p (tasks w' ! k) = id_p (tasks w ! k) \<and>
              title (tasks w' ! k) = title (tasks w ! k) \<and>
              description (tasks w' ! k) = description (tasks w ! k) \<and>
              people (tasks w' ! k) = people (tasks w ! k) \<and>
              (id_p (tasks w ! k) \<noteq> i \<longrightarrow> tasks w' ! k = tasks w ! k)) \<and>
           listeners w' = listeners w"
proof (cases "find_project i w")
  case None
  then show ?thesis by (simp add: moveProject_restatus)
next
  case (Some r)
  show ?thesis
  proof (cases "status (objects w ! r) = s")
    case True
    with Some show ?thesis by (simp add: moveProject_restatus)
  next
    case False
    let ?w1 = "restatus r s w"
    have pw: "projects w < length (arrays w)" using assms(1) by (simp add: wf_def)
    have m: "moveProject E n i s w = Inr (notified E ?w1)"
      using assms Some False by (intro moveProject_passive) auto
    have idr: "id_p (objects w ! r) = i" using find_project_Some [OF Some] by simp
    have t: "tasks (notified E ?w1) = tasks ?w1" using pw by simp
    have k: "\<forall>k<length (tasks w).
              id_p (tasks ?w1 ! k) = id_p (tasks w ! k) \<and>
              title (tasks ?w1 ! k) = title (tasks w ! k) \<and>
              description (tasks ?w1 ! k) = description (tasks w ! k) \<and>
              people (tasks ?w1 ! k) = people (tasks w ! k) \<and>
              (id_p (tasks w ! k) \<noteq> i \<longrightarrow> tasks ?w1 ! k = tasks w ! k)"
    proof (intro allI impI)
      fix k assume kl: "k < length (tasks w)"
      have eq: "tasks w ! k = objects w ! (arrays w ! projects w ! k)"
        using kl by (simp add: tasks_def)
      show "id_p (tasks ?w1 ! k) = id_p (tasks w ! k) \<and>
              title (tasks ?w1 ! k) = title (tasks w ! k) \<and>
              description (tasks ?w1 ! k) = description (tasks w ! k) \<and>
              people (tasks ?w1 ! k) = people (tasks w ! k) \<and>
              (id_p (tasks w ! k) \<noteq> i \<longrightarrow> tasks ?w1 ! k = tasks w ! k)"
        using tasks_restatus_nth [OF assms(1) kl, of r s] idr eq by auto
    qed
    have a: "arrays (notified E ?w1) ! projects (notified E ?w1) = arrays w ! projects w"
      using pw notified_store_array [of ?w1 E] by simp
    show ?thesis using m t k a by simp
  qed
qed

text \<open>
  C10: the frame of \<^verbatim>\<open>moveProject(id, s)\<close>. The only write the method itself performs
  is the assignment of \<open>s\<close> to the status of the first task with that id: the call
  either returns the store as it was or is the notification pass on the store with
  that one field changed. Whatever the listeners do, when the call returns the store
  has the same array, which begins with the tasks that were there, in their places
  (no task is removed or moved), and the listener sequence begins with the listeners
  that were there. When every registered listener is passive (it returns normally,
  does not call the store and does not write to a task), the call returns and the
  task sequence has the same length and order, every task keeps its id, title,
  description and people, every task whose id differs from the given one is
  unchanged in all fields, and the listener sequence is unchanged.
\<close>

theorem moveProject_frame:
  "(moveProject E n i s w = Inr w \<or>
      (\<exists>r. find_project i w = Some r \<and> id_p (objects w ! r) = i \<and>
           moveProject E n i s w =
             updateListeners E n
               (w\<lparr>objects := (objects w)[r := (objects w ! r)\<lparr>status := s\<rparr>]\<rparr>))) \<and>
   (wf w \<longrightarrow> (\<forall>w'. moveProject E n i s w = Inr w' \<longrightarrow>
       projects w' = projects w \<and>
       prefix (arrays w ! projects w) (arrays w' ! projects w') \<and>
       prefix (listeners w) (listeners w'))) \<and>
   (wf w \<and> (\<forall>l\<in>set (listeners w). passive_listener E l) \<and> length (listeners w) \<le> n \<longrightarrow>
      (\<exists>w'. moveProject E n i s w = Inr w' \<and>
           projects w' = projects w \<and>
           arrays w' ! projects w' = arrays w ! projects w \<and>
           length (tasks w') = length (tasks w) \<and>
           (\<forall>k<length (tasks w).
              id_p (tasks w' ! k) = id_p (tasks w ! k) \<and>
              title (tasks w' ! k) = title (tasks w ! k) \<and>
              description (tasks w' ! k) = description (tasks w ! k) \<and>
              people (tasks w' ! k) = people (tasks w ! k) \<and>
              (id_p (tasks w ! k) \<noteq> i \<longrightarrow> tasks w' ! k = tasks w ! k)) \<and>
           listeners w' = listeners w))"
proof -
  have a: "moveProject E n i s w = Inr w \<or>
      (\<exists>r. find_project i w = Some r \<and> id_p (objects w ! r) = i \<and>
           moveProject E n i s w =
             updateListeners E n
               (w\<lparr>objects := (objects w)[r := (objects w ! r)\<lparr>status := s\<rparr>]\<rparr>))"
  proof (cases "find_project i w")
    case None
    then show ?thesis by (simp add: moveProject_restatus)
  next
    case (Some r)
    then show ?thesis
      using find_project_Some [OF Some]
      by (cases "status (objects w ! r) = s") (simp_all add: moveProject_restatus restatus_def)
  qed
  have b: "wf w \<longrightarrow> (\<forall>w'. moveProject E n i s w = Inr w' \<longrightarrow>
       projects w' = projects w \<and>
       prefix (arrays w ! projects w) (arrays w' ! projects w') \<and>
       prefix (listeners w) (listeners w'))"
    using grows_moveProject [of w E n i s] by (auto simp: grows_def extends_def)
  have c: "wf w \<and> (\<forall>l\<in>set (listeners w). passive_listener E l) \<and> length (listeners w) \<le> n \<longrightarrow>
      (\<exists>w'. moveProject E n i s w = Inr w' \<and>
           projects w' = projects w \<and>
           arrays w' ! projects w' = arrays w ! projects w \<and>
           length (tasks w') = length (tasks w) \<and>
           (\<forall>k<length (tasks w).
              id_p (tasks w' ! k) = id_p (tasks w ! k) \<and>
              title (tasks w' ! k) = title (tasks w ! k) \<and>
              description (tasks w' ! k) = description (tasks w ! k) \<and>
              people (tasks w' ! k) = people (tasks w ! k) \<and>
              (id_p (tasks w ! k) \<noteq> i \<longrightarrow> tasks w' ! k = tasks w ! k)) \<and>
           listeners w' = listeners w)"
    using moveProject_frame_passive [of w E n i s] by blast
  show ?thesis using a b c by blast
qed

theorem moveProject_frame_witness:
  "wf board \<and> list_all (passive_listener app_env) (listeners board) \<and>
   length (listeners board) \<le> 3 \<and>
   (\<exists>w'. moveProject app_env 3 ''0.7'' FINISHED board = Inr w' \<and>
      arrays w' ! projects w' = [0, 1] \<and> length (tasks w') = 2 \<and>
      id_p (tasks w' ! 0) = ''0.7'' \<and> title (tasks w' ! 0) = ''Build API'' \<and>
      description (tasks w' ! 0) = ''Design REST layer'' \<and> people (tasks w' ! 0) = 3 \<and>
      tasks w' ! 1 = tasks board ! 1 \<and> listeners w' = [0, 1, 0] \<and>
      prefix [0, 1] (arrays w' ! projects w') \<and> prefix [0, 1, 0] (listeners w'))"
proof -
  have h1: "wf board" by (rule wf_board)
  have h2: "\<forall>l\<in>set (listeners board). passive_listener app_env l"
    by (simp add: passive_app_env)
  have h3: "length (listeners board) \<le> 3" by (simp add: board_fields)
  have h: "wf board \<and> (\<forall>l\<in>set (listeners board). passive_listener app_env l) \<and>
           length (listeners board) \<le> 3"
    using h1 h2 h3 by blast
  note t = moveProject_frame [where E = app_env and n = 3 and i = "''0.7''" and s = FINISHED
      and w = board]
  from t h
  obtain w' where w': "moveProject app_env 3 ''0.7'' FINISHED board = Inr w'"
    "arrays w' ! projects w' = arrays board ! projects board"
    "length (tasks w') = length (tasks board)"
    "\<forall>k<length (tasks board).
              id_p (tasks w' ! k) = id_p (tasks board ! k) \<and>
              title (tasks w' ! k) = title (tasks board ! k) \<and>
              description (tasks w' ! k) = description (tasks board ! k) \<and>
              people (tasks w' ! k) = people (tasks board ! k) \<and>
              (id_p (tasks board ! k) \<noteq> ''0.7'' \<longrightarrow> tasks w' ! k = tasks board ! k)"
    "listeners w' = listeners board"
    by blast
  have g: "prefix (arrays board ! projects board) (arrays w' ! projects w') \<and>
           prefix (listeners board) (listeners w')"
    using t h1 w'(1) by blast
  have tb: "length (tasks board) = 2" "id_p (tasks board ! 0) = ''0.7''"
    "title (tasks board ! 0) = ''Build API''"
    "description (tasks board ! 0) = ''Design REST layer''" "people (tasks board ! 0) = 3"
    "id_p (tasks board ! 1) \<noteq> ''0.7''"
    by (simp_all add: board_def tasks_def)
  have k0: "id_p (tasks w' ! 0) = ''0.7'' \<and> title (tasks w' ! 0) = ''Build API'' \<and>
      description (tasks w' ! 0) = ''Design REST layer'' \<and> people (tasks w' ! 0) = 3"
    using w'(4) [rule_format, of 0] tb by simp
  have k1: "tasks w' ! 1 = tasks board ! 1"
    using w'(4) [rule_format, of 1] tb by simp
  have "\<exists>w'. moveProject app_env 3 ''0.7'' FINISHED board = Inr w' \<and>
      arrays w' ! projects w' = [0, 1] \<and> length (tasks w') = 2 \<and>
      id_p (tasks w' ! 0) = ''0.7'' \<and> title (tasks w' ! 0) = ''Build API'' \<and>
      description (tasks w' ! 0) = ''Design REST layer'' \<and> people (tasks w' ! 0) = 3 \<and>
      tasks w' ! 1 = tasks board ! 1 \<and> listeners w' = [0, 1, 0] \<and>
      prefix [0, 1] (arrays w' ! projects w') \<and> prefix [0, 1, 0] (listeners w')"
    using w'(1,2,3,5) k0 k1 tb(1) g by (simp add: board_fields)
  then show ?thesis using h1 h3 by (simp add: passive_app_env list_all_iff)
qed

text \<open>
  Without the condition on the listeners the listener sequence need not be the same
  after the call: the listener 0, registered twice, registers listener 1 each time
  it is invoked in the pass that \<^verbatim>\<open>moveProject\<close> starts.
\<close>

theorem listener_changes_listeners_during_moveProject_counterexample:
  "listeners board = [0, 1, 0] \<and>
   map_sum id listeners (moveProject registering_env 5 ''0.7'' FINISHED board) =
     Inr [0, 1, 0, 1, 1]"
  by (simp add: moveProject.simps find_project_def board_def registering_env_def
      addListener_def slice_def Let_def eval_nat_numeral)

subsection \<open>Identifiers\<close>

text \<open>
  On the uniqueness of ids. Whether the ids are pairwise distinct is a matter of
  chance: an id is whatever \<^verbatim>\<open>Math.random().toString()\<close> yields, and the store
  performs no collision check of its own. What can be said here is the part that
  does not depend on chance: the ids of the tasks that a sequence of \<^verbatim>\<open>addProject\<close>
  calls creates are exactly the values drawn for them, in call order, after the ids
  that were there before, so that they are pairwise distinct exactly when those
  values are. Stated for passive listeners.
\<close>

lemma addProjects_ids_are_the_random_draws:
  assumes "wf w" and "\<forall>l\<in>set (listeners w). passive_listener E l" and "length (listeners w) \<le> n"
  shows "\<exists>w'. addProjects E n rs w = Inr w' \<and>
           map id_p (tasks w') =
             map id_p (tasks w) @ map (random E) [draws w ..< draws w + length rs] \<and>
           (distinct (map id_p (tasks w')) \<longleftrightarrow>
              distinct (map id_p (tasks w) @ map (random E) [draws w ..< draws w + length rs]))"
  using addProjects_passive [OF assms, of rs] by auto

lemma addProjects_ids_example:
  "wf app_world \<and> list_all (passive_listener app_env) (listeners app_world) \<and>
   length (listeners app_world) \<le> 2 \<and>
   (\<exists>w'. addProjects app_env 2
            [(''Build API'', ''Design REST layer'', 3), (''Write tests'', ''Cover the store'', 2)]
            app_world = Inr w' \<and>
      map id_p (tasks w') = [''0.7'', ''0.77''] \<and> distinct (map id_p (tasks w')))"
proof -
  have h1: "wf app_world" by (rule wf_app_world)
  have h2: "\<forall>l\<in>set (listeners app_world). passive_listener app_env l"
    by (simp add: passive_app_env)
  have h3: "length (listeners app_world) \<le> 2" by (simp add: app_world_fields)
  have u: "[0 ..< 2] = [0, Suc 0]" by (simp add: upt_rec)
  from addProjects_ids_are_the_random_draws [OF h1 h2 h3,
      of "[(''Build API'', ''Design REST layer'', 3), (''Write tests'', ''Cover the store'', 2)]"]
  obtain w' where w': "addProjects app_env 2
            [(''Build API'', ''Design REST layer'', 3), (''Write tests'', ''Cover the store'', 2)]
            app_world = Inr w'"
    "map id_p (tasks w') = map id_p (tasks app_world) @
        map (random app_env) [draws app_world ..< draws app_world + length
          [(''Build API'', ''Design REST layer'', 3::int), (''Write tests'', ''Cover the store'', 2)]]"
    by blast
  have ids: "map id_p (tasks w') = [''0.7'', ''0.77'']"
    using w'(2) u by (simp add: app_world_fields random_app_env)
  have "distinct (map id_p (tasks w'))" unfolding ids by simp
  then show ?thesis using w'(1) ids h1 h3
    by (simp add: passive_app_env list_all_iff)
qed

text \<open>
  A value drawn twice is stored twice: there is no check that would reject it.
\<close>

lemma repeated_draw_repeats_id:
  "map_sum id (map id_p \<circ> tasks)
     (addProjects repeating_env 0
        [(''Build API'', ''Design REST layer'', 3), (''Write tests'', ''Cover the store'', 2)]
        newProjectState) = Inr [''0.5'', ''0.5'']"
  by (simp add: addProject.simps repeating_env_def newProjectState_def Let_def tasks_def)

subsection \<open>Listeners registered during a pass\<close>

lemma registrations_passive_body:
  "list_all is_ArrayUpdate acts \<Longrightarrow> registrations acts = [] \<and> list_all is_registration acts"
proof (induction acts)
  case Nil
  then show ?case by simp
next
  case (Cons x acts)
  then obtain f where "x = ArrayUpdate f" by (cases x) auto
  with Cons show ?case by simp
qed

lemma passive_registering: "passive_listener E l \<Longrightarrow> registering E l"
  by (simp add: passive_listener_def registering_def registrations_passive_body)

lemma passive_registers_nothing: "passive_listener E l \<Longrightarrow> registrations (body E l items) = []"
  by (simp add: passive_listener_def registrations_passive_body)

lemma perform_registering:
  "list_all is_registration acts \<Longrightarrow> a < length (arrays w) \<Longrightarrow>
   perform E n a acts w =
     Inr (w\<lparr>arrays := (arrays w)[a := own_updates acts (arrays w ! a)],
            listeners := listeners w @ registrations acts\<rparr>)"
proof (induction acts arbitrary: w)
  case Nil
  then show ?case by simp
next
  case (Cons x acts)
  show ?case
  proof (cases x)
    case (Call c)
    with Cons.prems obtain l where c: "c = AddListener l" by (cases c) auto
    show ?thesis using Cons Call c by (simp add: addListener_def)
  next
    case (ArrayUpdate f)
    then show ?thesis using Cons by simp
  next
    case (FieldUpdate i f)
    then show ?thesis using Cons.prems by simp
  next
    case Throw
    then show ?thesis using Cons.prems by simp
  qed
qed

lemma concat_registrations_passive:
  "list_all (passive_listener E) ls \<Longrightarrow>
   concat (map (\<lambda>l. registrations (body E l items)) ls) = []"
  by (induction ls) (simp_all add: passive_registers_nothing)

lemma updateListeners_from_registering:
  assumes "\<forall>l\<in>set (drop i (listeners w)). registering E l"
    and "length (drop i (listeners w)) +
         length (concat (map (\<lambda>l. registrations (body E l (tasks w))) (drop i (listeners w)))) \<le> n"
    and "projects w < length (arrays w)"
  shows "\<exists>w'. updateListeners_from E n i w = Inr w' \<and>
           listeners w' = listeners w @
             concat (map (\<lambda>l. registrations (body E l (tasks w))) (drop i (listeners w))) \<and>
           map fst (trace w') = map fst (trace w) @ drop i (listeners w') \<and>
           projects w' = projects w \<and> tasks w' = tasks w \<and>
           objects w' = objects w \<and> arrays w' ! projects w = arrays w ! projects w \<and>
           length (arrays w) \<le> length (arrays w')"
  using assms
proof (induction n arbitrary: i w)
  case 0
  then show ?case by simp
next
  case (Suc n)
  show ?case
  proof (cases "i < length (listeners w)")
    case False
    then show ?thesis by simp
  next
    case True
    let ?L = "listeners w"
    let ?l = "?L ! i"
    let ?T = "tasks w"
    let ?R = "\<lambda>l. registrations (body E l ?T)"
    let ?a = "length (arrays w)"
    have dr: "drop i ?L = ?l # drop (Suc i) ?L"
      using True by (simp add: Cons_nth_drop_Suc)
    have reg: "registering E ?l" using Suc.prems(1) dr by simp
    then have acts: "list_all is_registration (body E ?l ?T)"
      and pas: "list_all (passive_listener E) (?R ?l)"
      by (simp_all add: registering_def)
    let ?w2 = "w\<lparr>arrays := arrays w @ [arrays w ! projects w],
                  trace := trace w @ [(?l, ?a, ?T)]\<rparr>"
    let ?w3 = "?w2\<lparr>arrays := (arrays ?w2)[?a := own_updates (body E ?l ?T) (arrays ?w2 ! ?a)],
                    listeners := listeners ?w2 @ ?R ?l\<rparr>"
    have p: "perform E n ?a (body E ?l ?T) ?w2 = Inr ?w3"
      using perform_registering [OF acts, of ?a ?w2 E n] by simp
    have step: "updateListeners_from E (Suc n) i w = updateListeners_from E n (Suc i) ?w3"
      using True Suc.prems(3) p by (simp add: slice_def tasks_def Let_def nth_append)
    have w3: "listeners ?w3 = ?L @ ?R ?l" "projects ?w3 = projects w" "objects ?w3 = objects w"
      "arrays ?w3 ! projects w = arrays w ! projects w" "length (arrays ?w3) = Suc ?a"
      "trace ?w3 = trace w @ [(?l, ?a, ?T)]"
      using Suc.prems(3) by (simp_all add: nth_append)
    have t3: "tasks ?w3 = ?T" using w3 by (simp add: tasks_def)
    have dr3: "drop (Suc i) (listeners ?w3) = drop (Suc i) ?L @ ?R ?l"
      using True by (simp add: w3)
    have c0: "concat (map ?R (?R ?l)) = []"
      using pas by (rule concat_registrations_passive)
    have h1: "\<forall>l\<in>set (drop (Suc i) (listeners ?w3)). registering E l"
    proof
      fix l assume "l \<in> set (drop (Suc i) (listeners ?w3))"
      then have "l \<in> set (drop (Suc i) ?L) \<or> l \<in> set (?R ?l)"
        unfolding dr3 by simp
      then show "registering E l"
        using Suc.prems(1) dr pas passive_registering [of E l]
        by (auto simp: list_all_iff)
    qed
    have h2: "length (drop (Suc i) (listeners ?w3)) +
         length (concat (map (\<lambda>l. registrations (body E l (tasks ?w3)))
           (drop (Suc i) (listeners ?w3)))) \<le> n"
    proof -
      have e1: "length (concat (map ?R (drop (Suc i) ?L @ ?R ?l))) =
                length (concat (map ?R (drop (Suc i) ?L))) + length (concat (map ?R (?R ?l)))"
        by simp
      have e2: "length (concat (map ?R (?R ?l))) = 0" by (simp only: c0 list.size)
      have e3: "length (drop i ?L) + length (concat (map ?R (drop i ?L))) =
                Suc (length (drop (Suc i) ?L)) +
                (length (?R ?l) + length (concat (map ?R (drop (Suc i) ?L))))"
        unfolding dr by simp
      have e4: "length (drop (Suc i) ?L @ ?R ?l) = length (drop (Suc i) ?L) + length (?R ?l)"
        by simp
      have "length (drop (Suc i) ?L @ ?R ?l) +
            length (concat (map ?R (drop (Suc i) ?L @ ?R ?l))) \<le> n"
        using Suc.prems(2) e1 e2 e3 e4 by linarith
      then show ?thesis unfolding dr3 t3 .
    qed
    have h3: "projects ?w3 < length (arrays ?w3)" using Suc.prems(3) by simp
    from Suc.IH [OF h1 h2 h3]
    obtain w' where w': "updateListeners_from E n (Suc i) ?w3 = Inr w'"
      "listeners w' = listeners ?w3 @
             concat (map (\<lambda>l. registrations (body E l (tasks ?w3))) (drop (Suc i) (listeners ?w3)))"
      "map fst (trace w') = map fst (trace ?w3) @ drop (Suc i) (listeners w')"
      "projects w' = projects ?w3" "tasks w' = tasks ?w3" "objects w' = objects ?w3"
      "arrays w' ! projects ?w3 = arrays ?w3 ! projects ?w3"
      "length (arrays ?w3) \<le> length (arrays w')"
      by blast
    have L': "listeners w' = ?L @ concat (map ?R (drop i ?L))"
    proof -
      have "listeners w' = listeners ?w3 @ concat (map ?R (drop (Suc i) ?L @ ?R ?l))"
        using w'(2) by (simp only: dr3 t3)
      then show ?thesis by (simp add: w3(1) c0 dr)
    qed
    have nth: "listeners w' ! i = ?l" using True by (simp add: L' nth_append)
    have "i < length (listeners w')" using True by (simp add: L')
    then have dr': "drop i (listeners w') = ?l # drop (Suc i) (listeners w')"
      using nth by (simp add: Cons_nth_drop_Suc [symmetric])
    have tr: "map fst (trace w') = map fst (trace w) @ drop i (listeners w')"
      using w'(3) dr' by (simp add: w3)
    have "arrays w' ! projects w = arrays w ! projects w"
      using w'(7) w3 by simp
    moreover have "length (arrays w) \<le> length (arrays w')"
      using w'(8) w3(5) by simp
    ultimately show ?thesis
      using step w'(1) L' tr w'(4) w'(5) w'(6) t3 w3 by simp
  qed
qed

lemma updateListeners_registering:
  assumes "wf w" and "\<forall>l\<in>set (listeners w). registering E l"
    and "length (listeners w) +
         length (concat (map (\<lambda>l. registrations (body E l (tasks w))) (listeners w))) \<le> n"
  shows "\<exists>w'. updateListeners E n w = Inr w' \<and>
           listeners w' = listeners w @
             concat (map (\<lambda>l. registrations (body E l (tasks w))) (listeners w)) \<and>
           invoked w w' = listeners w'"
proof -
  have p: "projects w < length (arrays w)" using assms(1) by (simp add: wf_def)
  from updateListeners_from_registering [of 0 w E n] assms(2,3) p
  obtain w' where w': "updateListeners_from E n 0 w = Inr w'"
    "listeners w' = listeners w @
             concat (map (\<lambda>l. registrations (body E l (tasks w))) (listeners w))"
    "map fst (trace w') = map fst (trace w) @ listeners w'"
    by auto
  have "invoked w w' = drop (length (map fst (trace w))) (map fst (trace w'))"
    by (simp add: invoked_def drop_map)
  also have "\<dots> = listeners w'" unfolding w'(3) by simp
  finally show ?thesis using w' by (simp add: updateListeners_def)
qed

text \<open>
  C1: a notification pass iterates over the live listener array. For every pass that
  returns, whatever the listeners do: the listeners registered when the pass ends are
  the listeners registered when it began, in the same order, followed by the
  listeners that callbacks registered through \<^verbatim>\<open>addListener\<close> during the pass, and
  every one of them is invoked as part of that pass, in registration order. So a
  listener registered during a pass is invoked as part of that in-progress pass, and
  so are the listeners it registers in turn. When no listener calls \<^verbatim>\<open>addProject\<close>
  or \<^verbatim>\<open>moveProject\<close>, the sequence of listeners invoked is exactly the sequence of
  listeners registered when the pass ends. The same holds of the pass that
  \<^verbatim>\<open>addProject\<close> or a status-changing \<^verbatim>\<open>moveProject\<close> starts. A pass returns
  whenever its listeners only register passive listeners and mutate the array they
  were handed and the fuel covers one invocation per listener registered at its end.
\<close>

theorem pass_invokes_listeners_registered_during_it:
  "(wf w \<longrightarrow> (\<forall>w'. updateListeners E n w = Inr w' \<longrightarrow>
       prefix (listeners w) (listeners w') \<and> subseq (listeners w') (invoked w w') \<and>
       ((\<forall>l\<in>set (listeners w'). starts_no_pass E l) \<longrightarrow> invoked w w' = listeners w'))) \<and>
   (wf w \<longrightarrow> (\<forall>w'. addProject E n t d p w = Inr w' \<longrightarrow>
       prefix (listeners w) (listeners w') \<and> subseq (listeners w') (invoked w w'))) \<and>
   (wf w \<longrightarrow> (\<forall>r w'. find_project i w = Some r \<and> status (objects w ! r) \<noteq> s \<and>
         moveProject E n i s w = Inr w' \<longrightarrow>
       prefix (listeners w) (listeners w') \<and> subseq (listeners w') (invoked w w'))) \<and>
   (wf w \<and> (\<forall>l\<in>set (listeners w). registering E l) \<and>
    length (listeners w) +
      length (concat (map (\<lambda>l. registrations (body E l (tasks w))) (listeners w))) \<le> n \<longrightarrow>
      (\<exists>w'. updateListeners E n w = Inr w' \<and>
         listeners w' = listeners w @
           concat (map (\<lambda>l. registrations (body E l (tasks w))) (listeners w)) \<and>
         invoked w w' = listeners w'))"
proof (intro conjI impI allI)
  fix w' assume wf: "wf w" and u: "updateListeners E n w = Inr w'"
  from grows_updateListeners [OF wf u]
  show "prefix (listeners w) (listeners w')" and "subseq (listeners w') (invoked w w')"
    by (simp_all add: grows_def)
  assume "\<forall>l\<in>set (listeners w'). starts_no_pass E l"
  then show "invoked w w' = listeners w'"
    using updateListeners_from_exact [of w E n 0 w'] wf u
    by (simp add: updateListeners_def invoked_def)
next
  fix w' assume wf: "wf w" and a: "addProject E n t d p w = Inr w'"
  show "prefix (listeners w) (listeners w')"
    using grows_addProject [OF wf a] by (simp add: grows_def)
  show "subseq (listeners w') (invoked w w')" using wf a by (rule subseq_addProject)
next
  fix r w'
  assume wf: "wf w"
    and m: "find_project i w = Some r \<and> status (objects w ! r) \<noteq> s \<and>
         moveProject E n i s w = Inr w'"
  show "prefix (listeners w) (listeners w')"
    using grows_moveProject [OF wf, of E n i s w'] m by (simp add: grows_def)
  show "subseq (listeners w') (invoked w w')"
    using subseq_moveProject [OF wf, of i r s E n w'] m by simp
next
  assume "wf w \<and> (\<forall>l\<in>set (listeners w). registering E l) \<and>
    length (listeners w) +
      length (concat (map (\<lambda>l. registrations (body E l (tasks w))) (listeners w))) \<le> n"
  then show "\<exists>w'. updateListeners E n w = Inr w' \<and>
         listeners w' = listeners w @
           concat (map (\<lambda>l. registrations (body E l (tasks w))) (listeners w)) \<and>
         invoked w w' = listeners w'"
    using updateListeners_registering [of w E n] by blast
qed

theorem pass_invokes_listeners_registered_during_it_witness:
  "wf (addListener 0 newProjectState) \<and>
   (\<exists>w'. updateListeners chain_env 3 (addListener 0 newProjectState) = Inr w' \<and>
      listeners w' = [0, 1, 2] \<and> invoked (addListener 0 newProjectState) w' = [0, 1, 2]) \<and>
   wf board \<and> list_all (registering registering_env) (listeners board) \<and>
   (\<exists>w'. updateListeners registering_env 5 board = Inr w' \<and>
      listeners w' = [0, 1, 0, 1, 1] \<and> invoked board w' = [0, 1, 0, 1, 1])"
proof -
  let ?c = "addListener 0 newProjectState"
  have c: "wf ?c" by (simp add: wf_addListener wf_newProjectState)
  from chain_pass_returns obtain w1 where
    w1: "updateListeners chain_env 3 ?c = Inr w1" "listeners w1 = [0, 1, 2]"
    by blast
  have "\<forall>l\<in>set (listeners w1). starts_no_pass chain_env l"
    by (simp add: starts_no_pass_chain_env)
  then have "invoked ?c w1 = listeners w1"
    using pass_invokes_listeners_registered_during_it [where w = ?c and E = chain_env and n = 3]
      c w1(1) by blast
  then have first: "\<exists>w'. updateListeners chain_env 3 ?c = Inr w' \<and>
      listeners w' = [0, 1, 2] \<and> invoked ?c w' = [0, 1, 2]"
    using w1 by simp
  have h1: "wf board" by (rule wf_board)
  have h2: "\<forall>l\<in>set (listeners board). registering registering_env l"
    by (simp add: registering_registering_env)
  have h3: "length (listeners board) +
         length (concat (map (\<lambda>l. registrations (body registering_env l (tasks board)))
           (listeners board))) \<le> 5"
    by (simp add: board_fields body_registering_env)
  from pass_invokes_listeners_registered_during_it
         [where w = board and E = registering_env and n = 5] h1 h2 h3
  obtain w' where w': "updateListeners registering_env 5 board = Inr w'"
    "listeners w' = listeners board @
       concat (map (\<lambda>l. registrations (body registering_env l (tasks board))) (listeners board))"
    "invoked board w' = listeners w'"
    by blast
  have l: "listeners w' = [0, 1, 0, 1, 1]"
    using w'(2) by (simp add: board_fields body_registering_env)
  have second: "\<exists>w'. updateListeners registering_env 5 board = Inr w' \<and>
      listeners w' = [0, 1, 0, 1, 1] \<and> invoked board w' = [0, 1, 0, 1, 1]"
    using w'(1,3) l by simp
  show ?thesis using c first h1 second
    by (simp add: board_fields registering_registering_env list_all_iff)
qed

text \<open>
  The listeners invoked are not the ones registered when the pass began: one listener
  is registered, it registers a second one during the pass that \<^verbatim>\<open>addProject\<close>
  starts, and that pass invokes both.
\<close>

theorem listener_registered_during_pass_is_invoked_counterexample:
  "listeners (addListener 0 newProjectState) = [0] \<and>
   map_sum id (invoked (addListener 0 newProjectState))
     (addProject registering_env 2 ''Build API'' ''Design REST layer'' 3
        (addListener 0 newProjectState)) = Inr [0, 1]"
  by (simp add: addProject.simps registering_env_def addListener_def newProjectState_def
      slice_def Let_def invoked_def numeral_2_eq_2)

subsection \<open>Snapshots\<close>

text \<open>
  C4: snapshot isolation holds for the sequence, and not for the tasks in it. Every
  listener is handed an array of its own: the arrays delivered in a pass are new,
  pairwise different and different from the store's array, so whatever the listeners
  do to the arrays they received, the store's internal sequence is unchanged and each
  delivered array ends up as the updates of its own listener alone leave it. The
  copy is shallow: the elements of a snapshot are the store's own \<^verbatim>\<open>Project\<close>
  objects, and an assignment to a field of an element of a snapshot changes the task
  the store owns.
\<close>

theorem snapshot_arrays_isolated_tasks_shared:
  assumes "wf w" and "\<forall>l\<in>set (listeners w). passive_listener E l" and "length (listeners w) \<le> n"
  shows "(\<exists>w'. updateListeners E n w = Inr w' \<and>
            arrays w' ! projects w' = arrays w ! projects w \<and>
            map fst (delivered w w') =
              [length (arrays w) ..< length (arrays w) + length (listeners w)] \<and>
            projects w' \<notin> set (map fst (delivered w w')) \<and>
            distinct (map fst (delivered w w')) \<and>
            (\<forall>k<length (listeners w).
               arrays w' ! (length (arrays w) + k) =
                 own_updates (body E (listeners w ! k) (tasks w)) (arrays w ! projects w))) \<and>
         (\<forall>j<length (tasks w).
            \<exists>w2. exec E n (fst (slice (projects w) w)) (FieldUpdate j f)
                    (snd (slice (projects w) w)) = Inr w2 \<and>
                 arrays w2 ! projects w2 = arrays w ! projects w \<and>
                 tasks w2 ! j = f (tasks w ! j))"
proof (intro conjI allI impI)
  have p: "projects w < length (arrays w)" using assms(1) by (simp add: wf_def)
  have u: "updateListeners E n w = Inr (notified E w)"
    using assms(2,3) p by (rule updateListeners_passive)
  have d: "map fst (delivered w (notified E w)) =
              [length (arrays w) ..< length (arrays w) + length (listeners w)]"
    by (simp add: delivered_notified comp_def)
  have a: "arrays (notified E w) ! projects (notified E w) = arrays w ! projects w"
    using p by simp
  have "projects (notified E w) \<notin> set (map fst (delivered w (notified E w)))"
    unfolding d using p by simp
  moreover have "distinct (map fst (delivered w (notified E w)))"
    unfolding d by simp
  moreover have "\<forall>k<length (listeners w).
               arrays (notified E w) ! (length (arrays w) + k) =
                 own_updates (body E (listeners w ! k) (tasks w)) (arrays w ! projects w)"
    by (simp add: notified_snapshot)
  ultimately show "\<exists>w'. updateListeners E n w = Inr w' \<and>
            arrays w' ! projects w' = arrays w ! projects w \<and>
            map fst (delivered w w') =
              [length (arrays w) ..< length (arrays w) + length (listeners w)] \<and>
            projects w' \<notin> set (map fst (delivered w w')) \<and>
            distinct (map fst (delivered w w')) \<and>
            (\<forall>k<length (listeners w).
               arrays w' ! (length (arrays w) + k) =
                 own_updates (body E (listeners w ! k) (tasks w)) (arrays w ! projects w))"
    using u d a by blast
next
  fix j assume j: "j < length (tasks w)"
  have p: "projects w < length (arrays w)" using assms(1) by (simp add: wf_def)
  let ?arr = "arrays w ! projects w"
  have jl: "j < length ?arr" using j by (simp add: tasks_def)
  have r: "?arr ! j < length (objects w)"
    using assms(1) jl by (simp add: wf_def list_all_length)
  let ?w2 = "w\<lparr>arrays := arrays w @ [?arr],
               objects := (objects w)[?arr ! j := f (objects w ! (?arr ! j))]\<rparr>"
  have e: "exec E n (fst (slice (projects w) w)) (FieldUpdate j f)
             (snd (slice (projects w) w)) = Inr ?w2"
    using jl r by (simp add: slice_def)
  have a: "arrays ?w2 ! projects ?w2 = ?arr" using p by (simp add: nth_append)
  have t: "tasks ?w2 ! j = f (tasks w ! j)"
    using jl r p by (simp add: tasks_def nth_append)
  show "\<exists>w2. exec E n (fst (slice (projects w) w)) (FieldUpdate j f)
                    (snd (slice (projects w) w)) = Inr w2 \<and>
                 arrays w2 ! projects w2 = arrays w ! projects w \<and>
                 tasks w2 ! j = f (tasks w ! j)"
    using e a t by blast
qed

theorem snapshot_arrays_isolated_tasks_shared_witness:
  "wf board \<and> list_all (passive_listener array_mutating_env) (listeners board) \<and>
   length (listeners board) \<le> 3 \<and>
   (\<exists>w'. updateListeners array_mutating_env 3 board = Inr w' \<and>
      arrays w' ! projects w' = [0, 1] \<and>
      map fst (delivered board w') = [1, 2, 3] \<and>
      arrays w' ! 1 = [] \<and> arrays w' ! 2 = [1, 0] \<and> arrays w' ! 3 = []) \<and>
   (\<exists>w2. exec array_mutating_env 3 (fst (slice (projects board) board)) (FieldUpdate 0 finish)
            (snd (slice (projects board) board)) = Inr w2 \<and>
      arrays w2 ! projects w2 = [0, 1] \<and>
      status (tasks w2 ! 0) = FINISHED)"
proof -
  have h1: "wf board" by (rule wf_board)
  have h2: "\<forall>l\<in>set (listeners board). passive_listener array_mutating_env l"
    by (simp add: passive_array_mutating_env)
  have h3: "length (listeners board) \<le> 3" by (simp add: board_fields)
  note t = snapshot_arrays_isolated_tasks_shared [OF h1 h2 h3, of finish]
  from t obtain w' where w': "updateListeners array_mutating_env 3 board = Inr w'"
    "arrays w' ! projects w' = arrays board ! projects board"
    "map fst (delivered board w') =
       [length (arrays board) ..< length (arrays board) + length (listeners board)]"
    "\<forall>k<length (listeners board).
       arrays w' ! (length (arrays board) + k) =
         own_updates (body array_mutating_env (listeners board ! k) (tasks board))
           (arrays board ! projects board)"
    by blast
  have u: "[Suc 0 ..< 4] = [1, 2, 3]" by (simp add: upt_rec)
  have k0: "arrays w' ! 1 = []" using w'(4) [rule_format, of 0]
    by (simp add: board_fields array_mutating_env_def)
  have k1: "arrays w' ! 2 = [1, 0]" using w'(4) [rule_format, of 1]
    by (simp add: board_fields array_mutating_env_def eval_nat_numeral)
  have k2: "arrays w' ! 3 = []" using w'(4) [rule_format, of 2]
    by (simp add: board_fields array_mutating_env_def eval_nat_numeral)
  have first: "\<exists>w'. updateListeners array_mutating_env 3 board = Inr w' \<and>
      arrays w' ! projects w' = [0, 1] \<and>
      map fst (delivered board w') = [1, 2, 3] \<and>
      arrays w' ! 1 = [] \<and> arrays w' ! 2 = [1, 0] \<and> arrays w' ! 3 = []"
    using w'(1,2,3) k0 k1 k2 u by (simp add: board_fields)
  from t have "\<forall>j<length (tasks board).
            \<exists>w2. exec array_mutating_env 3 (fst (slice (projects board) board)) (FieldUpdate j finish)
                    (snd (slice (projects board) board)) = Inr w2 \<and>
                 arrays w2 ! projects w2 = arrays board ! projects board \<and>
                 tasks w2 ! j = finish (tasks board ! j)"
    by blast
  then have "\<exists>w2. exec array_mutating_env 3 (fst (slice (projects board) board)) (FieldUpdate 0 finish)
                    (snd (slice (projects board) board)) = Inr w2 \<and>
                 arrays w2 ! projects w2 = arrays board ! projects board \<and>
                 tasks w2 ! 0 = finish (tasks board ! 0)"
    by (simp add: board_fields del: exec.simps)
  then obtain w2 where w2:
    "exec array_mutating_env 3 (fst (slice (projects board) board)) (FieldUpdate 0 finish)
       (snd (slice (projects board) board)) = Inr w2"
    "arrays w2 ! projects w2 = arrays board ! projects board"
    "tasks w2 ! 0 = finish (tasks board ! 0)"
    by blast
  have "arrays w2 ! projects w2 = [0, 1]" using w2(2) by (simp add: board_fields)
  moreover have "status (tasks w2 ! 0) = FINISHED" using w2(3) by (simp add: finish_def)
  ultimately have second: "\<exists>w2. exec array_mutating_env 3 (fst (slice (projects board) board)) (FieldUpdate 0 finish)
            (snd (slice (projects board) board)) = Inr w2 \<and>
      arrays w2 ! projects w2 = [0, 1] \<and>
      status (tasks w2 ! 0) = FINISHED"
    using w2(1) by blast
  show ?thesis using h1 h3 first second
    by (simp add: passive_array_mutating_env list_all_iff)
qed

text \<open>
  A listener can mutate a task the store owns: the one registered listener assigns
  \<open>FINISHED\<close> to the status of the first element of the snapshot it receives, and
  the task that \<^verbatim>\<open>addProject\<close> has just created as \<open>ACTIVE\<close> is \<open>FINISHED\<close> in the
  store when the call returns, without any call of \<^verbatim>\<open>moveProject\<close>.
\<close>

theorem listener_mutates_store_task_counterexample:
  "map_sum id (map status \<circ> tasks)
     (addProject field_writing_env 1 ''Build API'' ''Design REST layer'' 3
        (addListener 0 newProjectState)) = Inr [FINISHED]"
  by (simp add: addProject.simps field_writing_env_def addListener_def newProjectState_def
      slice_def Let_def tasks_def finish_def)

section \<open>Properties of the drag protocol\<close>

lemma dragOverHandler_cases:
  "dragOverHandler this event =
     (if marker_first (dataTransfer event)
      then (this\<lparr>classList := classList_add ''droppable'' (classList this)\<rparr>,
            preventDefault event, [])
      else (this, event, []))"
  by (auto simp: dragOverHandler_def marker_first_def split: option.splits list.splits)

lemma classList_add_idem [simp]: "classList_add c (classList_add c cs) = classList_add c cs"
  by (simp add: classList_add_def)

lemma dragovers_accept:
  "marker_first dt \<Longrightarrow>
   dragovers (Suc k) dt target =
     (target\<lparr>classList := classList_add ''droppable'' (classList target)\<rparr>, True, [])"
  by (induction k) (simp_all add: dragOverHandler_cases fresh_event_def preventDefault_def)

lemma dragovers_reject:
  "\<not> marker_first dt \<Longrightarrow> dragovers k dt target = (target, False, [])"
  by (induction k) (simp_all add: dragOverHandler_cases fresh_event_def)

lemma map_of_filter_other: "map_of (filter (\<lambda>x. fst x \<noteq> k) xs) k = None"
  by (induction xs) auto

lemma getData_setData [simp]:
  "getData format ((setData format d dt)\<lparr>effectAllowed := e\<rparr>) = d"
  by (simp add: getData_def setData_def map_add_def map_of_filter_other)

lemma dropHandler_Some:
  "dataTransfer event = Some dt \<Longrightarrow>
   dropHandler target event =
     Inr (target, event, [MoveProject (getData ''text/plain'' dt) (fixed_status target)])"
  by (simp add: dropHandler_def fixed_status_def split: list_type.split)

lemma marker_first_dragStart:
  "marker_first (Some ((setData ''text/plain'' d \<lparr>data_items = [], effectAllowed = e0\<rparr>)
      \<lparr>effectAllowed := e\<rparr>))"
  by (simp add: marker_first_def types_def setData_def)

lemma release_over_accept:
  "marker_first (Some dt) \<Longrightarrow>
   release_over (Suc k) (Some dt) target =
     Inr (target\<lparr>classList := classList_add ''droppable'' (classList target)\<rparr>,
          [MoveProject (getData ''text/plain'' dt) (fixed_status target)])"
  by (simp add: release_over_def dragovers_accept dropHandler_Some fresh_event_def
      fixed_status_def del: dragovers.simps)

lemma release_over_reject:
  "\<not> marker_first dt \<Longrightarrow>
   release_over k dt target =
     Inr (target\<lparr>classList := classList_remove ''droppable'' (classList target)\<rparr>, [])"
  by (simp add: release_over_def dragovers_reject dragLeaveHandler_def)

lemma gesture_drop:
  "gesture item target (Suc k) =
     Inr (target\<lparr>classList := classList_add ''droppable'' (classList target)\<rparr>,
          [MoveProject (id_p (project item)) (fixed_status target)])"
proof -
  let ?dt = "(setData ''text/plain'' (id_p (project item))
               \<lparr>data_items = [], effectAllowed = ''uninitialized''\<rparr>)\<lparr>effectAllowed := ''move''\<rparr>"
  have "marker_first (Some ?dt)" by (rule marker_first_dragStart)
  then have "release_over (Suc k) (Some ?dt) target =
     Inr (target\<lparr>classList := classList_add ''droppable'' (classList target)\<rparr>,
          [MoveProject (getData ''text/plain'' ?dt) (fixed_status target)])"
    by (rule release_over_accept)
  then show ?thesis
    by (simp add: gesture_def dragStartHandler_def fresh_event_def dragEndHandler_def
        del: dragovers.simps)
qed

text \<open>
  C7: a completed drop on a list target makes the drop handler call \<^verbatim>\<open>moveProject\<close>
  exactly once, with the id carried in the gesture's payload (the \<^verbatim>\<open>text/plain\<close> data
  of its data store) and the status that is fixed by the kind of the list. A gesture
  that starts on a \<^verbatim>\<open>ProjectItem\<close> and is dropped on a list issues the one call
  \<^verbatim>\<open>moveProject(id of the item's project, status of the list)\<close>, however many
  \<^verbatim>\<open>dragover\<close> events preceded the drop. The handlers of \<^verbatim>\<open>dragstart\<close>,
  \<^verbatim>\<open>dragover\<close>, \<^verbatim>\<open>dragleave\<close> and \<^verbatim>\<open>dragend\<close> issue no call on the store.
\<close>

theorem drop_calls_moveProject_exactly_once:
  "(\<forall>dt. dataTransfer event = Some dt \<longrightarrow>
      dropHandler target event =
        Inr (target, event, [MoveProject (getData ''text/plain'' dt) (fixed_status target)])) \<and>
   (0 < k \<longrightarrow>
      gesture item target k =
        Inr (target\<lparr>classList := classList_add ''droppable'' (classList target)\<rparr>,
             [MoveProject (id_p (project item)) (fixed_status target)])) \<and>
   snd (snd (dragOverHandler target event)) = [] \<and>
   snd (snd (dragLeaveHandler target event)) = [] \<and>
   snd (snd (dragEndHandler item event)) = [] \<and>
   (\<forall>r. dragStartHandler item event = Inr r \<longrightarrow> snd (snd r) = [])"
proof (intro conjI allI impI)
  fix dt assume "dataTransfer event = Some dt"
  then show "dropHandler target event =
        Inr (target, event, [MoveProject (getData ''text/plain'' dt) (fixed_status target)])"
    by (rule dropHandler_Some)
next
  assume "0 < k"
  then obtain k' where "k = Suc k'" by (cases k) auto
  then show "gesture item target k =
        Inr (target\<lparr>classList := classList_add ''droppable'' (classList target)\<rparr>,
             [MoveProject (id_p (project item)) (fixed_status target)])"
    by (simp only: gesture_drop)
next
  show "snd (snd (dragOverHandler target event)) = []"
    by (simp add: dragOverHandler_cases)
  show "snd (snd (dragLeaveHandler target event)) = []"
    by (simp add: dragLeaveHandler_def)
  show "snd (snd (dragEndHandler item event)) = []"
    by (simp add: dragEndHandler_def)
next
  fix r assume "dragStartHandler item event = Inr r"
  then show "snd (snd r) = []"
    by (auto simp: dragStartHandler_def split: option.splits)
qed

theorem drop_calls_moveProject_exactly_once_witness:
  "dataTransfer (fresh_event (Some abc_payload)) = Some abc_payload \<and>
   dropHandler finished_list (fresh_event (Some abc_payload)) =
     Inr (finished_list, fresh_event (Some abc_payload), [MoveProject ''abc'' FINISHED]) \<and>
   (0::nat) < 4 \<and>
   gesture abc_item finished_list 4 =
     Inr (\<lparr>type = finished, classList = [''droppable'']\<rparr>, [MoveProject ''abc'' FINISHED]) \<and>
   dragStartHandler abc_item (fresh_event (Some \<lparr>data_items = [], effectAllowed = ''none''\<rparr>)) =
     Inr (abc_item, fresh_event (Some abc_payload), [])"
proof -
  have d: "dataTransfer (fresh_event (Some abc_payload)) = Some abc_payload"
    by (simp add: fresh_event_def)
  have s: "dragStartHandler abc_item (fresh_event (Some \<lparr>data_items = [], effectAllowed = ''none''\<rparr>)) =
     Inr (abc_item, fresh_event (Some abc_payload), [])"
    by (simp add: dragStartHandler_def fresh_event_def abc_item_def abc_payload_def setData_def)
  show ?thesis
    using drop_calls_moveProject_exactly_once
            [of "fresh_event (Some abc_payload)" finished_list 4 abc_item] d s
    by (simp add: fixed_status_def finished_list_def abc_item_def abc_payload_def getData_def
        classList_add_def)
qed

text \<open>
  C8: on a \<^verbatim>\<open>dragover\<close> event the target suppresses the default (rejecting) behaviour
  and applies the \<^verbatim>\<open>droppable\<close> indicator if and only if the gesture's declared
  payload label is the plain-text marker \<^verbatim>\<open>"text/plain"\<close>; otherwise the target and
  the event are left as they were. Consequently, when the label does not match, no
  \<^verbatim>\<open>dragover\<close> is cancelled, the browser fires no \<^verbatim>\<open>drop\<close> at the target, and the
  gesture issues no call of \<^verbatim>\<open>moveProject\<close>, however long the pointer hovered.
\<close>

theorem dragover_accepts_iff_marker_else_no_drop:
  "(defaultPrevented (fst (snd (dragOverHandler target (fresh_event dt)))) \<longleftrightarrow> marker_first dt) \<and>
   (''droppable'' \<in> set (classList (fst (dragOverHandler target (fresh_event dt)))) \<longleftrightarrow>
      marker_first dt \<or> ''droppable'' \<in> set (classList target)) \<and>
   (\<not> marker_first dt \<longrightarrow>
      dragOverHandler target (fresh_event dt) = (target, fresh_event dt, [])) \<and>
   (\<not> marker_first dt \<longrightarrow>
      release_over k dt target =
        Inr (target\<lparr>classList := classList_remove ''droppable'' (classList target)\<rparr>, []))"
proof (intro conjI impI)
  show "defaultPrevented (fst (snd (dragOverHandler target (fresh_event dt)))) \<longleftrightarrow> marker_first dt"
    by (simp add: dragOverHandler_cases fresh_event_def preventDefault_def)
  show "''droppable'' \<in> set (classList (fst (dragOverHandler target (fresh_event dt)))) \<longleftrightarrow>
      marker_first dt \<or> ''droppable'' \<in> set (classList target)"
    by (simp add: dragOverHandler_cases classList_add_def fresh_event_def)
next
  assume "\<not> marker_first dt"
  then show "dragOverHandler target (fresh_event dt) = (target, fresh_event dt, [])"
    by (simp add: dragOverHandler_cases fresh_event_def)
next
  assume "\<not> marker_first dt"
  then show "release_over k dt target =
        Inr (target\<lparr>classList := classList_remove ''droppable'' (classList target)\<rparr>, [])"
    by (rule release_over_reject)
qed

theorem dragover_accepts_iff_marker_else_no_drop_witness:
  "marker_first (Some abc_payload) \<and>
   defaultPrevented (fst (snd (dragOverHandler finished_list (fresh_event (Some abc_payload))))) \<and>
   ''droppable'' \<in> set (classList (fst (dragOverHandler finished_list (fresh_event (Some abc_payload))))) \<and>
   \<not> marker_first (Some html_payload) \<and>
   \<not> defaultPrevented (fst (snd (dragOverHandler finished_list (fresh_event (Some html_payload))))) \<and>
   ''droppable'' \<notin> set (classList (fst (dragOverHandler finished_list (fresh_event (Some html_payload))))) \<and>
   release_over 3 (Some html_payload) finished_list = Inr (finished_list, [])"
proof -
  have m: "marker_first (Some abc_payload)" "\<not> marker_first (Some html_payload)"
    by (simp_all add: marker_first_def types_def abc_payload_def html_payload_def)
  have c: "''droppable'' \<notin> set (classList finished_list)"
    "finished_list\<lparr>classList := classList_remove ''droppable'' (classList finished_list)\<rparr> =
       finished_list"
    by (simp_all add: finished_list_def classList_remove_def)
  show ?thesis
    using dragover_accepts_iff_marker_else_no_drop
            [where target = finished_list and dt = "Some abc_payload" and k = 3]
          dragover_accepts_iff_marker_else_no_drop
            [where target = finished_list and dt = "Some html_payload" and k = 3] m c
    by (simp add: fresh_event_def)
qed

text \<open>
  The drop handler itself does not look at the label: handed a \<^verbatim>\<open>drop\<close> event whose
  data store holds no plain text, it calls \<^verbatim>\<open>moveProject\<close> with the empty string.
  What keeps such a drop from the store is the browser, which does not fire the event.
\<close>

lemma dropHandler_checks_no_label:
  "\<not> marker_first (Some html_payload) \<and>
   dropHandler finished_list (fresh_event (Some html_payload)) =
     Inr (finished_list, fresh_event (Some html_payload), [MoveProject [] FINISHED])"
  by (simp add: marker_first_def types_def html_payload_def dropHandler_def fresh_event_def
      finished_list_def getData_def)

text \<open>
  C9: after a completed drop the \<^verbatim>\<open>droppable\<close> indicator that \<^verbatim>\<open>dragover\<close> applied
  is still there. \<^verbatim>\<open>dropHandler\<close> reads the payload and calls \<^verbatim>\<open>moveProject\<close>, and
  does not touch the class list; only \<^verbatim>\<open>dragLeaveHandler\<close> removes the indicator.
  Here: one \<^verbatim>\<open>dragover\<close> of the task \<^verbatim>\<open>"abc"\<close> over the Finished list, then the drop.
\<close>

theorem drop_leaves_droppable_indicator:
  "release_over 1 (Some abc_payload) finished_list =
     Inr (\<lparr>type = finished, classList = [''droppable'']\<rparr>, [MoveProject ''abc'' FINISHED])"
  by (simp add: release_over_def dragOverHandler_def dropHandler_def fresh_event_def
      finished_list_def abc_payload_def types_def getData_def classList_add_def
      preventDefault_def)

end
